theory Spec2Isabelle
  imports Complex_Main
begin

section \<open>Cricket auction server: a shallow embedding of \<open>server.js\<close>\<close>

text \<open>
  The theory embeds the per-room state machine of \<open>src/server.js\<close>: the room object,
  the game-state functions (\<open>checkEliminations\<close> ... \<open>prepareNext\<close>), the socket handlers
  that mutate a room, the two timers, and the save/load projection.

  Conventions of the embedding.
  \<^item> A JavaScript Number that holds money or a score is an exact rational (\<^typ>\<open>rat\<close>);
    IEEE-754 rounding error is outside the model. The non-finite values that the code
    can meet (a \<open>parseFloat\<close> that fails, a division by a zero base price) are the
    constructors of \<open>jsnum\<close>.
  \<^item> \<open>room.teams\<close> is an object used as a dictionary. It is an association list in
    insertion order, so that \<open>Object.values\<close> and \<open>Object.keys\<close> are \<open>map snd\<close> and
    \<open>map fst\<close>. (JavaScript lists integer-like keys first; only the choice of the next
    host in \<open>leave-room\<close> reads the order.) Identities are assumed not to be names of
    \<open>Object.prototype\<close> members.
  \<^item> A \<open>Set\<close> of identities is a duplicate-free list in insertion order.
  \<^item> Handler arguments are the values after \<open>sanitizeInput\<close>; one room is modelled, the
    lookup \<open>rooms[roomId]\<close> having succeeded.
  \<^item> \<open>auction.timer\<close> and \<open>room.nextPlayerTimeout\<close> are handles. The model keeps of each
    whether a callback is still scheduled; the firing of a callback is an event.
  \<^item> \<open>io.to(roomId).emit\<close> appends to the field \<open>emitted\<close>; unicast replies to one socket
    and \<open>console\<close> output are left out. \<open>saveGameData()\<close> only schedules the projection
    \<open>cleanRoom\<close> below and does not change a room.
  \<^item> A handler that throws (a property read on \<open>undefined\<close>) returns \<open>None\<close>.
\<close>

subsection \<open>Rules\<close>

definition MAX_SQUAD_SIZE :: nat where "MAX_SQUAD_SIZE = 25"
definition MIN_SQUAD_TO_PLAY :: nat where "MIN_SQUAD_TO_PLAY = 18"
definition PLAYING_11_SIZE :: nat where "PLAYING_11_SIZE = 11"
definition MAX_OVERSEAS_SQUAD :: nat where "MAX_OVERSEAS_SQUAD = 8"
definition MAX_OVERSEAS_P11 :: nat where "MAX_OVERSEAS_P11 = 4"
definition BID_INCREMENT :: rat where "BID_INCREMENT = 1 / 4"

subsection \<open>Numbers\<close>

datatype jsnum = NaN | NegInf | Fin rat | PosInf

text \<open>\<open>a / b\<close> on finite operands.\<close>

definition js_div :: "rat \<Rightarrow> rat \<Rightarrow> jsnum" where
  "js_div a b =
     (if b = 0 then (if a = 0 then NaN else if 0 < a then PosInf else NegInf)
      else Fin (a / b))"

text \<open>\<open>x < k\<close>, \<open>x > k\<close> and \<open>x >= k\<close> against a finite \<open>k\<close>; every comparison with
  \<open>NaN\<close> is false.\<close>

fun js_lt :: "jsnum \<Rightarrow> rat \<Rightarrow> bool" where
  "js_lt NaN k = False"
| "js_lt NegInf k = True"
| "js_lt (Fin a) k = (a < k)"
| "js_lt PosInf k = False"

fun js_gt :: "jsnum \<Rightarrow> rat \<Rightarrow> bool" where
  "js_gt NaN k = False"
| "js_gt NegInf k = False"
| "js_gt (Fin a) k = (k < a)"
| "js_gt PosInf k = True"

fun js_ge :: "jsnum \<Rightarrow> rat \<Rightarrow> bool" where
  "js_ge NaN k = False"
| "js_ge NegInf k = False"
| "js_ge (Fin a) k = (k \<le> a)"
| "js_ge PosInf k = True"

text \<open>\<open>Math.round\<close>: the nearest integer, a tie going up.\<close>

definition Math_round :: "rat \<Rightarrow> int" where
  "Math_round x = \<lfloor>x + 1 / 2\<rfloor>"

text \<open>\<open>parseFloat(x.toFixed(2))\<close>: the nearest multiple of \<open>0.01\<close>, a tie going away from
  zero (\<open>toFixed\<close> rounds the magnitude and puts the sign back).\<close>

definition toFixed2 :: "rat \<Rightarrow> rat" where
  "toFixed2 x =
     (if x < 0 then - (of_int \<lfloor>(- x) * 100 + 1 / 2\<rfloor> / 100)
      else of_int \<lfloor>x * 100 + 1 / 2\<rfloor> / 100)"

subsection \<open>Data\<close>

text \<open>A catalogue item; \<open>soldPrice\<close> is absent until \<open>finishBidding\<close> copies the item into
  a squad. \<open>rating\<close> is the \<open>Math.round\<close> of \<open>calculateWeightedRating\<close>, an integer. The
  display fields (\<open>bat\<close>, \<open>bowl\<close>, \<open>field\<close>, \<open>status\<close>, \<open>img\<close>) are read by no handler.\<close>

record player =
  pid :: string
  pname :: string
  role :: string
  country :: string
  rating :: int
  basePrice :: rat
  soldPrice :: "rat option"

record team =
  tid :: string
  tname :: string
  purse :: rat
  squad :: "player list"
  isEliminated :: bool
  isFinishedBidding :: bool
  submitted11 :: bool
  totalScore :: rat
  playing11 :: "player list option"

datatype phase = LOBBY | AUCTION | SELECTION | RESULT

text \<open>The broadcasts of a room, with the payload fields the server computes.\<close>

datatype emit =
    TeamsUpdated
  | AuctionStartedSignal
  | NewPlayer player rat
  | BidUpdated rat string string
  | TimerUpdate int
  | PlayerSold "player option" rat string bool
  | PlayerUnsold "player option"
  | StartSelectionPhase
  | GameOverResults "team list"

record auction_state =
  playerPool :: "player list"
  currentPlayerIndex :: nat
  currentBid :: rat
  currentBidderId :: "string option"
  biddingOpen :: bool
  phase :: phase
  skippedBy :: "string list"
  timeLeft :: int
  timer :: bool

text \<open>\<open>startingPurse\<close> is \<open>config.startingPurse\<close>.\<close>

record room =
  hostId :: string
  startingPurse :: rat
  teams :: "(string \<times> team) list"
  auction :: auction_state
  lastActivity :: nat
  nextPlayerTimeout :: bool
  emitted :: "emit list"

text \<open>What a handler leaves behind: the room, or nothing after \<open>delete rooms[roomId]\<close>, or
  an uncaught \<open>TypeError\<close>.\<close>

datatype outcome = Room room | Destroyed | Crashed

subsection \<open>Dictionary and array helpers\<close>

definition updTeam :: "string \<Rightarrow> (team \<Rightarrow> team) \<Rightarrow> (string \<times> team) list \<Rightarrow> (string \<times> team) list" where
  "updTeam u f ts = map (\<lambda>(k, t). if k = u then (k, f t) else (k, t)) ts"

definition delTeam :: "string \<Rightarrow> (string \<times> team) list \<Rightarrow> (string \<times> team) list" where
  "delTeam u ts = filter (\<lambda>(k, t). k \<noteq> u) ts"

text \<open>\<open>xs[i]\<close>, \<open>undefined\<close> out of range.\<close>

definition item_at :: "'a list \<Rightarrow> nat \<Rightarrow> 'a option" where
  "item_at xs i = (if i < length xs then Some (xs ! i) else None)"

text \<open>\<open>if (auction.currentBidderId)\<close>: \<open>null\<close> and the empty string are falsy.\<close>

fun truthy :: "string option \<Rightarrow> bool" where
  "truthy None = False"
| "truthy (Some u) = (u \<noteq> [])"

definition isOverseas :: "player \<Rightarrow> bool" where
  "isOverseas p = (country p = ''Overseas'')"

definition emit :: "emit \<Rightarrow> room \<Rightarrow> room" where
  "emit e r = r\<lparr>emitted := emitted r @ [e]\<rparr>"

definition updateRoomActivity :: "nat \<Rightarrow> room \<Rightarrow> room" where
  "updateRoomActivity now r = r\<lparr>lastActivity := now\<rparr>"

definition newTeam :: "string \<Rightarrow> string \<Rightarrow> rat \<Rightarrow> team" where
  "newTeam u nm p =
     \<lparr>tid = u, tname = nm, purse = p, squad = [], isEliminated = False,
      isFinishedBidding = False, submitted11 = False, totalScore = 0, playing11 = None\<rparr>"

subsection \<open>Game state logic\<close>

definition eliminable :: "team \<Rightarrow> bool" where
  "eliminable t = (purse t < BID_INCREMENT \<and> length (squad t) < MIN_SQUAD_TO_PLAY)"

definition checkEliminations :: "room \<Rightarrow> room" where
  "checkEliminations r =
     r\<lparr>teams := map (\<lambda>(k, t). (k, if eliminable t then t\<lparr>isEliminated := True\<rparr> else t)) (teams r)\<rparr>"

definition endAuctionPhase :: "nat \<Rightarrow> room \<Rightarrow> room" where
  "endAuctionPhase now r =
     updateRoomActivity now
       (emit StartSelectionPhase
         (r\<lparr>auction := (auction r)\<lparr>timer := False, phase := SELECTION, biddingOpen := False\<rparr>\<rparr>))"

definition isActive :: "team \<Rightarrow> bool" where
  "isActive t = (\<not> isEliminated t \<and> \<not> isFinishedBidding t \<and> length (squad t) < MAX_SQUAD_SIZE)"

definition activeBidders :: "room \<Rightarrow> team list" where
  "activeBidders r = filter isActive (map snd (teams r))"

definition checkAuctionCompletion :: "nat \<Rightarrow> room \<Rightarrow> room" where
  "checkAuctionCompletion now r =
     (if phase (auction r) \<noteq> AUCTION then r
      else if length (activeBidders r) = 0
        then endAuctionPhase now (r\<lparr>auction := (auction r)\<lparr>timer := False\<rparr>\<rparr>)
        else r)"

text \<open>\<open>teams.sort((a, b) => b.totalScore - a.totalScore)\<close> on the teams that are not
  eliminated: a stable sort, highest score first.\<close>

definition rankings :: "room \<Rightarrow> team list" where
  "rankings r =
     sort_key (\<lambda>t. - totalScore t) (filter (\<lambda>t. \<not> isEliminated t) (map snd (teams r)))"

definition calculateWinner :: "nat \<Rightarrow> room \<Rightarrow> room" where
  "calculateWinner now r =
     (let r1 = r\<lparr>auction := (auction r)\<lparr>phase := RESULT\<rparr>\<rparr>
      in updateRoomActivity now (emit (GameOverResults (rankings r1)) r1))"

definition emitResults :: "room \<Rightarrow> room" where
  "emitResults r =
     (if phase (auction r) = RESULT then emit (GameOverResults (rankings r)) r else r)"

subsection \<open>Timers\<close>

text \<open>\<open>startAuctionTimer\<close> up to the \<open>setInterval\<close> call: the countdown is set to 10 and
  one interval is scheduled, the previous one cancelled.\<close>

definition startAuctionTimer :: "room \<Rightarrow> room" where
  "startAuctionTimer r = r\<lparr>auction := (auction r)\<lparr>timeLeft := 10, timer := True\<rparr>\<rparr>"

definition startNextPlayer :: "nat \<Rightarrow> room \<Rightarrow> room" where
  "startNextPlayer now r =
     (if phase (auction r) \<noteq> AUCTION then r
      else if currentPlayerIndex (auction r) \<ge> length (playerPool (auction r))
        then endAuctionPhase now r
      else
        (let player = playerPool (auction r) ! currentPlayerIndex (auction r);
             r1 = r\<lparr>auction := (auction r)\<lparr>currentBid := basePrice player,
                     currentBidderId := None, skippedBy := [], biddingOpen := True\<rparr>\<rparr>
         in startAuctionTimer
              (emit (NewPlayer player (currentBid (auction r1)))
                (updateRoomActivity now r1))))"

definition prepareNext :: "nat \<Rightarrow> room \<Rightarrow> room" where
  "prepareNext now r =
     (if phase (auction r) \<noteq> AUCTION then r
      else
        (let r1 = r\<lparr>auction := (auction r)\<lparr>currentPlayerIndex :=
                     currentPlayerIndex (auction r) + 1\<rparr>\<rparr>;
             r2 = checkEliminations r1;
             r3 = updateRoomActivity now (emit TeamsUpdated r2)
         in r3\<lparr>nextPlayerTimeout := True\<rparr>))"

definition finishPlayerUnsold :: "nat \<Rightarrow> room \<Rightarrow> room" where
  "finishPlayerUnsold now r =
     (let r1 = r\<lparr>auction := (auction r)\<lparr>biddingOpen := False\<rparr>\<rparr>;
          player = item_at (playerPool (auction r1)) (currentPlayerIndex (auction r1))
      in prepareNext now (emit (PlayerUnsold player) r1))"

text \<open>\<open>finishBidding\<close>. With no item at the current index the sale still deducts and
  pushes, and the \<open>console.log\<close> that reads \<open>player.name\<close> then throws.\<close>

definition finishBidding :: "nat \<Rightarrow> room \<Rightarrow> room option" where
  "finishBidding now r =
     (let r1 = r\<lparr>auction := (auction r)\<lparr>biddingOpen := False\<rparr>\<rparr>;
          player = item_at (playerPool (auction r1)) (currentPlayerIndex (auction r1));
          winnerUserId = currentBidderId (auction r1);
          team = (case winnerUserId of None \<Rightarrow> None | Some w \<Rightarrow> map_of (teams r1) w)
      in case (winnerUserId, team) of
           (Some w, Some t) \<Rightarrow>
             (let finalPrice = currentBid (auction r1)
              in if finalPrice > purse t then Some (finishPlayerUnsold now r1)
                 else if length (squad t) \<ge> MAX_SQUAD_SIZE then Some (finishPlayerUnsold now r1)
                 else
                   (case player of
                      None \<Rightarrow> None
                    | Some p \<Rightarrow>
                        (let soldPlayer = p\<lparr>soldPrice := Some finalPrice\<rparr>;
                             r2 = r1\<lparr>teams := updTeam w
                                    (\<lambda>t. t\<lparr>purse := toFixed2 (purse t - finalPrice),
                                            squad := squad t @ [soldPlayer]\<rparr>) (teams r1)\<rparr>;
                             r3 = checkEliminations r2;
                             eliminated = (case map_of (teams r3) w of
                                             None \<Rightarrow> False
                                           | Some t' \<Rightarrow> isEliminated t');
                             r4 = emit (PlayerSold player (currentBid (auction r3))
                                    (tname t) eliminated) r3
                         in Some (prepareNext now (checkAuctionCompletion now r4)))))
         | _ \<Rightarrow>
             Some (prepareNext now (checkAuctionCompletion now (emit (PlayerUnsold player) r1))))"

subsection \<open>Socket handlers\<close>

text \<open>\<open>create-room\<close>. \<open>Math.max(50, Math.min(500, parseFloat(purse) || 100))\<close>: a failed parse
  and zero both give 100. The catalogue is the shuffled result of \<open>loadPlayerDatabase\<close>,
  replaced by one placeholder item when it is empty.\<close>

definition hostPurse :: "jsnum \<Rightarrow> rat" where
  "hostPurse requested =
     (case requested of
        NaN \<Rightarrow> 100
      | NegInf \<Rightarrow> 50
      | Fin p \<Rightarrow> max 50 (min 500 (if p = 0 then 100 else p))
      | PosInf \<Rightarrow> 500)"

definition errorPlayer :: player where
  "errorPlayer =
     \<lparr>pid = ''error_0'', pname = ''Error: No Players'', role = ''N/A'', country = ''India'',
      rating = 0, basePrice = 0, soldPrice = None\<rparr>"

definition createRoom :: "nat \<Rightarrow> string \<Rightarrow> string \<Rightarrow> jsnum \<Rightarrow> player list \<Rightarrow> room" where
  "createRoom now userId teamName requested catalogue =
     (let initialPool = (if length catalogue = 0 then [errorPlayer] else catalogue)
      in emit TeamsUpdated
           \<lparr>hostId = userId,
            startingPurse = hostPurse requested,
            teams = [(userId, newTeam userId teamName (hostPurse requested))],
            auction = \<lparr>playerPool = initialPool, currentPlayerIndex = 0, currentBid = 0,
                        currentBidderId = None, biddingOpen = False, phase = LOBBY,
                        skippedBy = [], timeLeft = 10, timer = False\<rparr>,
            lastActivity = now,
            nextPlayerTimeout = False,
            emitted = []\<rparr>)"

definition joinRoom :: "nat \<Rightarrow> string \<Rightarrow> string \<Rightarrow> room \<Rightarrow> room" where
  "joinRoom now userId teamName r =
     (let r1 = (if map_of (teams r) userId = None
                then r\<lparr>teams := teams r @ [(userId, newTeam userId teamName (startingPurse r))]\<rparr>
                else r);
          r2 = updateRoomActivity now r1;
          r3 = (if phase (auction r2) = AUCTION \<and> biddingOpen (auction r2) then r2
                else if phase (auction r2) = SELECTION then r2
                else if phase (auction r2) = RESULT then emitResults r2
                else r2)
      in emit TeamsUpdated (checkEliminations r3))"

definition rejoinGame :: "nat \<Rightarrow> string \<Rightarrow> room \<Rightarrow> room" where
  "rejoinGame now userId r =
     (case map_of (teams r) userId of
        None \<Rightarrow> r
      | Some t \<Rightarrow>
          (let r1 = emit TeamsUpdated r;
               r2 = (if phase (auction r1) = AUCTION \<and> biddingOpen (auction r1) then r1
                     else if phase (auction r1) = SELECTION then r1
                     else if phase (auction r1) = RESULT then emitResults r1
                     else r1)
           in updateRoomActivity now r2))"

definition leaveRoom :: "nat \<Rightarrow> string \<Rightarrow> room \<Rightarrow> outcome" where
  "leaveRoom now userId r =
     (let r1 = r\<lparr>teams := delTeam userId (teams r)\<rparr>
      in if hostId r1 = userId then
           (case map fst (teams r1) of
              [] \<Rightarrow> Destroyed
            | k # ks \<Rightarrow> Room (checkAuctionCompletion now (emit TeamsUpdated (r1\<lparr>hostId := k\<rparr>))))
         else Room (checkAuctionCompletion now (emit TeamsUpdated r1)))"

definition finishBiddingForMe :: "nat \<Rightarrow> string \<Rightarrow> room \<Rightarrow> room" where
  "finishBiddingForMe now userId r =
     (case map_of (teams r) userId of
        None \<Rightarrow> r
      | Some t \<Rightarrow>
          if length (squad t) \<ge> MIN_SQUAD_TO_PLAY \<and> \<not> isEliminated t then
            checkAuctionCompletion now
              (emit TeamsUpdated
                (updateRoomActivity now
                  (r\<lparr>teams := updTeam userId (\<lambda>t. t\<lparr>isFinishedBidding := True\<rparr>) (teams r)\<rparr>)))
          else r)"

text \<open>\<open>start-auction\<close>; \<open>userId\<close> is the identity mapped to the sending socket.\<close>

definition startAuction :: "nat \<Rightarrow> string \<Rightarrow> room \<Rightarrow> room" where
  "startAuction now userId r =
     (if hostId r \<noteq> userId then r
      else if phase (auction r) \<noteq> LOBBY then r
      else startNextPlayer now
             (emit AuctionStartedSignal
               (updateRoomActivity now (r\<lparr>auction := (auction r)\<lparr>phase := AUCTION\<rparr>\<rparr>))))"

text \<open>\<open>place-bid\<close>; \<open>bidAmount\<close> is the result of \<open>parseFloat\<close>. The last case is
  \<open>isNaN(bidAmount)\<close>: the line before it has already returned for the two infinities.\<close>

definition placeBid :: "nat \<Rightarrow> string \<Rightarrow> jsnum \<Rightarrow> room \<Rightarrow> room option" where
  "placeBid now userId bidAmount r =
     (if \<not> biddingOpen (auction r) then Some r
      else case map_of (teams r) userId of
        None \<Rightarrow> Some r
      | Some t \<Rightarrow>
          if isEliminated t \<or> isFinishedBidding t then Some r
          else if length (squad t) \<ge> MAX_SQUAD_SIZE then Some r
          else
            (let minBid = currentBid (auction r) + BID_INCREMENT
             in if js_lt bidAmount minBid \<or> js_gt bidAmount (purse t) then Some r
                else
                  (case bidAmount of
                     Fin a \<Rightarrow>
                       (case item_at (playerPool (auction r)) (currentPlayerIndex (auction r)) of
                          None \<Rightarrow> None
                        | Some player \<Rightarrow>
                            if isOverseas player \<and>
                               length (filter isOverseas (squad t)) \<ge> MAX_OVERSEAS_SQUAD
                            then Some r
                            else
                              (let r1 = r\<lparr>auction := (auction r)\<lparr>currentBid := toFixed2 a,
                                           currentBidderId := Some userId, skippedBy := []\<rparr>\<rparr>;
                                   r2 = updateRoomActivity now r1
                               in Some (startAuctionTimer
                                    (emit (BidUpdated (currentBid (auction r2)) userId (tname t)) r2))))
                   | _ \<Rightarrow> Some r)))"

text \<open>\<open>skip-for-me\<close>. \<open>requiredSkips\<close> can be \<open>-1\<close>, so it is an integer.\<close>

definition requiredSkips :: "room \<Rightarrow> int" where
  "requiredSkips r =
     (if truthy (currentBidderId (auction r)) then int (length (activeBidders r)) - 1
      else int (length (activeBidders r)))"

definition skipForMe :: "nat \<Rightarrow> string \<Rightarrow> room \<Rightarrow> room option" where
  "skipForMe now userId r =
     (if \<not> biddingOpen (auction r) then Some r
      else case map_of (teams r) userId of
        None \<Rightarrow> Some r
      | Some t \<Rightarrow>
          if isEliminated t \<or> isFinishedBidding t then Some r
          else
            (let r1 = (if userId \<in> set (skippedBy (auction r)) then r
                       else r\<lparr>auction := (auction r)\<lparr>skippedBy :=
                              skippedBy (auction r) @ [userId]\<rparr>\<rparr>)
             in if int (length (skippedBy (auction r1))) \<ge> requiredSkips r1 \<and>
                   length (activeBidders r1) > 0
                then
                  (let r2 = r1\<lparr>auction := (auction r1)\<lparr>timer := False\<rparr>\<rparr>
                   in if truthy (currentBidderId (auction r2)) then finishBidding now r2
                      else Some (finishPlayerUnsold now r2))
                else Some r1))"

text \<open>The callback of \<open>setInterval\<close> in \<open>startAuctionTimer\<close>, run once a second while the
  interval is scheduled.\<close>

definition timerTick :: "nat \<Rightarrow> room \<Rightarrow> room option" where
  "timerTick now r =
     (if \<not> timer (auction r) then Some r
      else
        (let r1 = r\<lparr>auction := (auction r)\<lparr>timeLeft := timeLeft (auction r) - 1\<rparr>\<rparr>;
             r2 = emit (TimerUpdate (timeLeft (auction r1))) r1
         in if timeLeft (auction r2) \<le> 0 then
              (let r3 = r2\<lparr>auction := (auction r2)\<lparr>timer := False\<rparr>\<rparr>
               in if truthy (currentBidderId (auction r3)) then finishBidding now r3
                  else Some (finishPlayerUnsold now r3))
            else Some r2))"

text \<open>The callback of \<open>setTimeout\<close> in \<open>prepareNext\<close>, run once, 3 seconds later.\<close>

definition nextPlayerFire :: "nat \<Rightarrow> room \<Rightarrow> room" where
  "nextPlayerFire now r =
     (if \<not> nextPlayerTimeout r then r
      else
        (let r1 = r\<lparr>nextPlayerTimeout := False\<rparr>
         in if phase (auction r1) = AUCTION then startNextPlayer now r1 else r1))"

subsection \<open>Scoring\<close>

text \<open>\<open>getEffectiveRating\<close>; \<open>factor\<close> is \<open>p.soldPrice / p.basePrice\<close>, not a number when the
  sale price is missing.\<close>

definition getEffectiveRating :: "player \<Rightarrow> int" where
  "getEffectiveRating p =
     (let factor = (case soldPrice p of None \<Rightarrow> NaN | Some sp \<Rightarrow> js_div sp (basePrice p));
          finalRating =
            (if rating p > 88 \<and> js_ge factor 8 then rating p - 5
             else if rating p > 88 \<and> js_lt factor 6 then rating p + 5
             else if rating p < 88 \<and> js_gt factor 6 then rating p - 5
             else if rating p < 88 \<and> js_lt factor 4 then rating p + 5
             else rating p)
      in max 0 finalRating)"

text \<open>The \<open>selectedPlayers.forEach\<close> loop, \<open>score\<close> being the running total.\<close>

fun addOthers :: "player list \<Rightarrow> string \<Rightarrow> string \<Rightarrow> rat \<Rightarrow> rat \<Rightarrow> rat" where
  "addOthers [] cId vcId leadershipBonus score = score"
| "addOthers (p # ps) cId vcId leadershipBonus score =
     addOthers ps cId vcId leadershipBonus
       (if pid p \<noteq> cId \<and> pid p \<noteq> vcId
        then score + (of_int (getEffectiveRating p) + leadershipBonus)
        else score)"

text \<open>\<open>submit-playing-11\<close>; \<open>playerIds\<close> is an array (anything else is rejected at once).\<close>

definition submitPlaying11 ::
  "nat \<Rightarrow> string \<Rightarrow> string list \<Rightarrow> string \<Rightarrow> string \<Rightarrow> room \<Rightarrow> room" where
  "submitPlaying11 now userId playerIds cId vcId r =
     (case map_of (teams r) userId of
        None \<Rightarrow> r
      | Some t \<Rightarrow>
          (let requiredSelection = min PLAYING_11_SIZE (length (squad t))
           in if length playerIds \<noteq> requiredSelection then r
              else
                (let selectedPlayers = filter (\<lambda>p. pid p \<in> set playerIds) (squad t)
                 in if length selectedPlayers \<noteq> requiredSelection then r
                    else if length (filter isOverseas selectedPlayers) > MAX_OVERSEAS_P11 then r
                    else
                      (case (find (\<lambda>p. pid p = cId) selectedPlayers,
                             find (\<lambda>p. pid p = vcId) selectedPlayers) of
                         (Some captain, Some viceCaptain) \<Rightarrow>
                           if cId = vcId then r
                           else
                             (let cEffRating = getEffectiveRating captain;
                                  vcEffRating = getEffectiveRating viceCaptain;
                                  score0 = 0 + of_int cEffRating * 2 + of_int vcEffRating * (3 / 2);
                                  leadershipBonus =
                                    of_int cEffRating * (1 / 10) + of_int vcEffRating * (1 / 10);
                                  score = addOthers selectedPlayers cId vcId leadershipBonus score0;
                                  r1 = r\<lparr>teams := updTeam userId
                                         (\<lambda>t. t\<lparr>totalScore := of_int (Math_round (score * 100)) / 100,
                                                 submitted11 := True,
                                                 playing11 := Some selectedPlayers\<rparr>) (teams r)\<rparr>;
                                  r2 = updateRoomActivity now r1;
                                  activeTeams = filter (\<lambda>t. \<not> isEliminated t) (map snd (teams r2));
                                  allSubmitted = list_all submitted11 activeTeams
                              in if allSubmitted then calculateWinner now r2
                                 else emit TeamsUpdated r2)
                       | _ \<Rightarrow> r))))"

subsection \<open>Persistence\<close>

text \<open>The object \<open>cleanRoom\<close> that \<open>saveGameData\<close> writes for a room, field by field.\<close>

record clean_auction =
  c_playerPool :: "player list"
  c_currentPlayerIndex :: nat
  c_currentBid :: rat
  c_currentBidderId :: "string option"
  c_biddingOpen :: bool
  c_phase :: phase
  c_skippedBy :: "string list"
  c_timeLeft :: int

record clean_room =
  c_hostId :: string
  c_config :: rat
  c_teams :: "(string \<times> team) list"
  c_auction :: clean_auction
  c_lastActivity :: nat

definition cleanRoom :: "room \<Rightarrow> clean_room" where
  "cleanRoom r =
     \<lparr>c_hostId = hostId r,
      c_config = startingPurse r,
      c_teams = teams r,
      c_auction =
        \<lparr>c_playerPool = playerPool (auction r),
         c_currentPlayerIndex = currentPlayerIndex (auction r),
         c_currentBid = currentBid (auction r),
         c_currentBidderId = currentBidderId (auction r),
         c_biddingOpen = biddingOpen (auction r),
         c_phase = phase (auction r),
         c_skippedBy = skippedBy (auction r),
         c_timeLeft = timeLeft (auction r)\<rparr>,
      c_lastActivity = lastActivity r\<rparr>"

text \<open>\<open>new Set(array)\<close>: the first occurrence of each element, in order.\<close>

definition newSet :: "string list \<Rightarrow> string list" where
  "newSet xs = rev (remdups (rev xs))"

text \<open>The body of the \<open>forEach\<close> in \<open>loadGameData\<close> for one room read back from the file.
  No call of \<open>startAuctionTimer\<close> follows it. A new process has broadcast nothing yet.\<close>

definition loadRoom :: "clean_room \<Rightarrow> room" where
  "loadRoom c =
     \<lparr>hostId = c_hostId c,
      startingPurse = c_config c,
      teams = c_teams c,
      auction =
        \<lparr>playerPool = c_playerPool (c_auction c),
         currentPlayerIndex = c_currentPlayerIndex (c_auction c),
         currentBid = c_currentBid (c_auction c),
         currentBidderId = c_currentBidderId (c_auction c),
         biddingOpen = c_biddingOpen (c_auction c),
         phase = c_phase (c_auction c),
         skippedBy = newSet (c_skippedBy (c_auction c)),
         timeLeft = c_timeLeft (c_auction c),
         timer = False\<rparr>,
      lastActivity = c_lastActivity c,
      nextPlayerTimeout = False,
      emitted = []\<rparr>"

text \<open>A room untouched for more than 24 hours is deleted, at load time and by the hourly
  sweep; a \<open>lastActivity\<close> of 0 is falsy.\<close>

definition expired :: "nat \<Rightarrow> room \<Rightarrow> bool" where
  "expired now r = (lastActivity r \<noteq> 0 \<and> int now - int (lastActivity r) > 86400000)"

text \<open>The process stops and starts again: \<open>loadGameData\<close> reads the room back from the
  file. The write that \<open>saveGameData\<close> schedules, one second after the first change, is
  taken to have happened, so the file holds the snapshot of the room as it is.\<close>

definition restart :: "nat \<Rightarrow> room \<Rightarrow> outcome" where
  "restart now r =
     (let r1 = loadRoom (cleanRoom r) in if expired now r1 then Destroyed else Room r1)"

definition cleanupSweep :: "nat \<Rightarrow> room \<Rightarrow> outcome" where
  "cleanupSweep now r = (if expired now r then Destroyed else Room r)"

subsection \<open>The room as a transition system\<close>

datatype event =
    JoinRoom string string
  | RejoinGame string
  | LeaveRoom string
  | FinishBiddingForMe string
  | StartAuction string
  | PlaceBid string jsnum
  | SkipForMe string
  | SubmitPlaying11 string "string list" string string
  | TimerTick
  | NextPlayerFire
  | CleanupSweep
  | Restart

definition thrown :: "room option \<Rightarrow> outcome" where
  "thrown x = (case x of None \<Rightarrow> Crashed | Some r \<Rightarrow> Room r)"

text \<open>One event handled at time \<open>now\<close> (\<open>Date.now()\<close>).\<close>

fun step :: "nat \<Rightarrow> event \<Rightarrow> room \<Rightarrow> outcome" where
  "step now (JoinRoom u nm) r = Room (joinRoom now u nm r)"
| "step now (RejoinGame u) r = Room (rejoinGame now u r)"
| "step now (LeaveRoom u) r = leaveRoom now u r"
| "step now (FinishBiddingForMe u) r = Room (finishBiddingForMe now u r)"
| "step now (StartAuction u) r = Room (startAuction now u r)"
| "step now (PlaceBid u amount) r = thrown (placeBid now u amount r)"
| "step now (SkipForMe u) r = thrown (skipForMe now u r)"
| "step now (SubmitPlaying11 u ids c vc) r = Room (submitPlaying11 now u ids c vc r)"
| "step now TimerTick r = thrown (timerTick now r)"
| "step now NextPlayerFire r = Room (nextPlayerFire now r)"
| "step now CleanupSweep r = cleanupSweep now r"
| "step now Restart r = restart now r"

text \<open>A sequence of timed events, stopping when the room is gone.\<close>

fun run :: "(nat \<times> event) list \<Rightarrow> room \<Rightarrow> outcome" where
  "run [] r = Room r"
| "run ((now, e) # es) r =
     (case step now e r of Room r' \<Rightarrow> run es r' | Destroyed \<Rightarrow> Destroyed | Crashed \<Rightarrow> Crashed)"

text \<open>The rooms a server can hold: created by \<open>create-room\<close>, then changed by events.\<close>

inductive reachable :: "room \<Rightarrow> bool" where
  created: "reachable (createRoom now userId teamName requested catalogue)"
| stepped: "reachable r \<Longrightarrow> step now e r = Room r' \<Longrightarrow> reachable r'"

subsection \<open>Invariants of a room\<close>

definition inv_keys :: "room \<Rightarrow> bool" where
  "inv_keys r = distinct (map fst (teams r))"
definition inv_config :: "room \<Rightarrow> bool" where
  "inv_config r = (50 \<le> startingPurse r)"
definition inv_elim :: "room \<Rightarrow> bool" where
  "inv_elim r =
     (\<forall>k t. (k, t) \<in> set (teams r) \<longrightarrow>
        (isEliminated t \<longrightarrow> eliminable t) \<and> (eliminable t \<longrightarrow> isEliminated t))"
definition inv_nonneg :: "room \<Rightarrow> bool" where
  "inv_nonneg r = (\<forall>k t. (k, t) \<in> set (teams r) \<longrightarrow> 0 \<le> purse t)"
definition inv_leader :: "room \<Rightarrow> bool" where
  "inv_leader r =
     (biddingOpen (auction r) \<longrightarrow>
       (\<forall>w t. currentBidderId (auction r) = Some w \<longrightarrow> (w, t) \<in> set (teams r) \<longrightarrow>
          \<not> isEliminated t))"
definition inv_timer :: "room \<Rightarrow> bool" where
  "inv_timer r = (timer (auction r) \<longrightarrow> biddingOpen (auction r))"
definition inv_index :: "room \<Rightarrow> bool" where
  "inv_index r =
     (biddingOpen (auction r) \<longrightarrow> currentPlayerIndex (auction r) < length (playerPool (auction r)))"
definition inv_host :: "room \<Rightarrow> bool" where
  "inv_host r = (\<exists>t. (hostId r, t) \<in> set (teams r))"
definition inv_lobby :: "room \<Rightarrow> bool" where
  "inv_lobby r =
     (phase (auction r) = LOBBY \<longrightarrow>
        \<not> biddingOpen (auction r) \<and>
        (\<forall>k t. (k, t) \<in> set (teams r) \<longrightarrow>
           squad t = [] \<and> \<not> isFinishedBidding t \<and> \<not> isEliminated t))"
definition inv_active :: "room \<Rightarrow> bool" where
  "inv_active r = (phase (auction r) = AUCTION \<longrightarrow> activeBidders r \<noteq> [])"

definition room_inv0 :: "room \<Rightarrow> bool" where
  "room_inv0 r =
     (inv_keys r \<and> inv_config r \<and> inv_elim r \<and> inv_nonneg r \<and> inv_leader r \<and>
      inv_timer r \<and> inv_index r \<and> inv_host r \<and> inv_lobby r)"

definition room_inv :: "room \<Rightarrow> bool" where
  "room_inv r = (room_inv0 r \<and> inv_active r)"

subsection \<open>A small game, for concrete runs\<close>

definition mkPlayer :: "string \<Rightarrow> string \<Rightarrow> int \<Rightarrow> rat \<Rightarrow> player" where
  "mkPlayer i c rt bp =
     \<lparr>pid = i, pname = i, role = ''Batsman'', country = c, rating = rt, basePrice = bp,
      soldPrice = None\<rparr>"

definition demoPool :: "player list" where
  "demoPool = [mkPlayer ''p1'' ''India'' 90 (1 / 5), mkPlayer ''p2'' ''Overseas'' 80 (1 / 5),
               mkPlayer ''p3'' ''India'' 70 (1 / 5)]"

text \<open>\<open>create-room\<close> by user \<open>h\<close> with a purse of 100.\<close>

definition demoRoom :: room where
  "demoRoom = createRoom 0 ''h'' ''Host'' (Fin 100) demoPool"

text \<open>The room a run of events leaves (the starting room when the run ends without one).\<close>

definition roomAfter :: "(nat \<times> event) list \<Rightarrow> room \<Rightarrow> room" where
  "roomAfter es r = (case run es r of Room r' \<Rightarrow> r' | Destroyed \<Rightarrow> r | Crashed \<Rightarrow> r)"

definition teamOf :: "string \<Rightarrow> room \<Rightarrow> team option" where
  "teamOf u r = map_of (teams r) u"

text \<open>The host starts the auction, bids 1.2 on the first item and, being the only active
  bidder, closes the round with a skip: the item is sold.\<close>

definition firstSale :: "(nat \<times> event) list" where
  "firstSale = [(1, StartAuction ''h''), (2, PlaceBid ''h'' (Fin (6 / 5))), (3, SkipForMe ''h'')]"



text \<open>The same room created with a requested purse of 100.006.\<close>

definition oddPurseRoom :: room where
  "oddPurseRoom = createRoom 0 ''h'' ''Host'' (Fin (50003 / 500)) demoPool"

text \<open>The host buys the first two items at 0.45 each, closing each round with a skip.\<close>

definition buyTwo :: "(nat \<times> event) list" where
  "buyTwo =
     [(1, StartAuction ''h''), (2, PlaceBid ''h'' (Fin (9 / 20))), (3, SkipForMe ''h''),
      (4, NextPlayerFire), (5, PlaceBid ''h'' (Fin (9 / 20))), (6, SkipForMe ''h'')]"

text \<open>... and the third, after which the pool is exhausted and the selection phase
  starts.\<close>

definition buyThree :: "(nat \<times> event) list" where
  "buyThree =
     buyTwo @ [(7, NextPlayerFire), (8, PlaceBid ''h'' (Fin (9 / 20))), (9, SkipForMe ''h''),
               (10, NextPlayerFire)]"

text \<open>The lineup of all three players, with \<open>p1\<close> as captain and \<open>p2\<close> as vice-captain.\<close>

definition firstLineup :: event where
  "firstLineup = SubmitPlaying11 ''h'' [''p1'', ''p2'', ''p3''] ''p1'' ''p2''"

subsection \<open>Relations between a room and a later one\<close>


subsection \<open>The closing of a round\<close>







text \<open>A room given another countdown value and skip set, and earlier broadcasts \<open>l\<close>.\<close>

definition retime :: "int \<Rightarrow> string list \<Rightarrow> emit list \<Rightarrow> room \<Rightarrow> room" where
  "retime k sk l x =
     x\<lparr>auction := (auction x)\<lparr>timeLeft := k, skippedBy := sk\<rparr>, emitted := l @ emitted x\<rparr>"

subsection \<open>The score, as the specification words it\<close>





subsection \<open>The order of the phases\<close>

fun phaseRank :: "phase \<Rightarrow> nat" where
  "phaseRank LOBBY = 0"
| "phaseRank AUCTION = 1"
| "phaseRank SELECTION = 2"
| "phaseRank RESULT = 3"

text \<open>The second room is in the phase of the first or in a later one, and in RESULT only if it
  was there before or all its teams that are not eliminated have submitted.\<close>

definition forward :: "room \<Rightarrow> room \<Rightarrow> bool" where
  "forward r r' =
     (phaseRank (phase (auction r)) \<le> phaseRank (phase (auction r')) \<and>
      (phase (auction r') = RESULT \<longrightarrow>
         phase (auction r) = RESULT \<or>
         list_all submitted11 (filter (\<lambda>t. \<not> isEliminated t) (map snd (teams r')))))"

subsection \<open>The squads and the pool\<close>

definition squadsOf :: "room \<Rightarrow> player list set" where
  "squadsOf r = (\<lambda>(k, t). squad t) ` set (teams r)"

text \<open>Every squad has pairwise distinct ids, all of them among the ids of the first \<open>n\<close>
  items of the pool.\<close>

definition squads_within :: "nat \<Rightarrow> room \<Rightarrow> bool" where
  "squads_within n r =
     (\<forall>sq \<in> squadsOf r.
        distinct (map pid sq) \<and> pid ` set sq \<subseteq> pid ` set (take n (playerPool (auction r))))"

text \<open>The number of items whose round is over: those before the current index, and the
  current one too once the auction has ended with its round closed.\<close>

definition soldUpTo :: "room \<Rightarrow> nat" where
  "soldUpTo r =
     (if biddingOpen (auction r) \<or> phase (auction r) = AUCTION
      then currentPlayerIndex (auction r)
      else Suc (currentPlayerIndex (auction r)))"

definition inv_squads :: "room \<Rightarrow> bool" where
  "inv_squads r =
     (distinct (map pid (playerPool (auction r))) \<longrightarrow> squads_within (soldUpTo r) r)"

text \<open>The second room has the pool of the first, is not behind it in the pool, and each
  of its squads is empty or a squad of the first.\<close>

definition squads_from :: "room \<Rightarrow> room \<Rightarrow> bool" where
  "squads_from r r' =
     (playerPool (auction r') = playerPool (auction r) \<and>
      soldUpTo r \<le> soldUpTo r' \<and>
      squadsOf r' \<subseteq> insert [] (squadsOf r))"


section \<open>The invariants hold in every reachable room\<close>

lemmas small_defs = emit_def updateRoomActivity_def startAuctionTimer_def

lemmas inv_defs = room_inv0_def inv_keys_def inv_config_def inv_elim_def inv_nonneg_def
  inv_leader_def inv_timer_def inv_index_def inv_host_def inv_lobby_def inv_active_def

lemma toFixed2_nonneg: "0 \<le> x \<Longrightarrow> 0 \<le> toFixed2 x"
  by (simp add: toFixed2_def)

lemma activeBidders_empty_iff:
  "(activeBidders r = []) = (\<forall>k t. (k, t) \<in> set (teams r) \<longrightarrow> \<not> isActive t)"
  by (auto simp: activeBidders_def filter_empty_conv)

lemma checkEliminations_id: "inv_elim r \<Longrightarrow> checkEliminations r = r"
proof -
  assume a: "inv_elim r"
  have "map (\<lambda>(k, t). (k, if eliminable t then t\<lparr>isEliminated := True\<rparr> else t)) (teams r) = teams r"
    using a unfolding inv_elim_def by (intro map_idI) auto
  then show ?thesis by (simp add: checkEliminations_def)
qed

lemma hostPurse_bounds: "50 \<le> hostPurse x \<and> hostPurse x \<le> 500"
  by (cases x) (simp_all add: hostPurse_def)

lemma newTeam_not_eliminable: "50 \<le> p \<Longrightarrow> \<not> eliminable (newTeam u nm p)"
  by (simp add: eliminable_def newTeam_def BID_INCREMENT_def)

lemma newTeam_fields [simp]:
  "squad (newTeam u nm p) = []" "purse (newTeam u nm p) = p"
  "\<not> isEliminated (newTeam u nm p)" "\<not> isFinishedBidding (newTeam u nm p)"
  by (simp_all add: newTeam_def)

lemma room_inv_created: "room_inv (createRoom now u nm req cat)"
  using hostPurse_bounds [of req] newTeam_not_eliminable [of "hostPurse req" u nm]
  by (simp add: room_inv_def inv_defs createRoom_def small_defs activeBidders_def isActive_def
      MAX_SQUAD_SIZE_def)

lemma map_fst_updTeam [simp]: "map fst (updTeam u f ts) = map fst ts"
  by (induction ts) (auto simp: updTeam_def)

lemma set_updTeam:
  "set (updTeam u f ts) = (\<lambda>(k, t). if k = u then (k, f t) else (k, t)) ` set ts"
  by (simp add: updTeam_def)

lemma map_of_updTeam [simp]:
  "map_of (updTeam u f ts) k = (if k = u then map_option f (map_of ts k) else map_of ts k)"
  by (induction ts) (auto simp: updTeam_def)

lemma map_of_delTeam [simp]:
  "map_of (delTeam u ts) k = (if k = u then None else map_of ts k)"
  by (induction ts) (auto simp: delTeam_def)

lemma set_delTeam: "set (delTeam u ts) = {(k, t). (k, t) \<in> set ts \<and> k \<noteq> u}"
  by (auto simp: delTeam_def)

lemma map_fst_checkEliminations [simp]:
  "map fst (teams (checkEliminations r)) = map fst (teams r)"
  by (simp add: checkEliminations_def comp_def case_prod_unfold)

lemma map_of_checkEliminations [simp]:
  "map_of (teams (checkEliminations r)) k =
     map_option (\<lambda>t. if eliminable t then t\<lparr>isEliminated := True\<rparr> else t) (map_of (teams r) k)"
  by (simp add: checkEliminations_def map_of_map)

lemma other_checkEliminations [simp]:
  "auction (checkEliminations r) = auction r"
  "hostId (checkEliminations r) = hostId r"
  "startingPurse (checkEliminations r) = startingPurse r"
  by (simp_all add: checkEliminations_def)

lemma room_inv0_endAuctionPhase: "room_inv0 r \<Longrightarrow> room_inv (endAuctionPhase now r)"
  by (simp add: room_inv_def inv_defs endAuctionPhase_def small_defs)

lemma room_inv_checkAuctionCompletion:
  "room_inv0 r \<Longrightarrow> room_inv (checkAuctionCompletion now r)"
proof -
  assume a: "room_inv0 r"
  have b: "room_inv0 (r\<lparr>auction := (auction r)\<lparr>timer := False\<rparr>\<rparr>)"
    using a by (simp add: inv_defs)
  show ?thesis
    using a room_inv0_endAuctionPhase [OF b]
    by (auto simp: checkAuctionCompletion_def room_inv_def inv_active_def)
qed

lemma room_inv_prepareNext:
  "room_inv r \<Longrightarrow> \<not> biddingOpen (auction r) \<Longrightarrow> room_inv (prepareNext now r)"
proof -
  assume a: "room_inv r" and b: "\<not> biddingOpen (auction r)"
  let ?r1 = "r\<lparr>auction := (auction r)\<lparr>currentPlayerIndex := currentPlayerIndex (auction r) + 1\<rparr>\<rparr>"
  have e: "inv_elim ?r1" using a by (simp add: room_inv_def inv_defs)
  have "room_inv ?r1" using a b
    by (simp add: room_inv_def inv_defs activeBidders_def)
  then show ?thesis
    using a checkEliminations_id [OF e]
    by (cases "phase (auction r) = AUCTION")
       (simp_all add: prepareNext_def Let_def small_defs room_inv_def inv_defs activeBidders_def)
qed

lemma room_inv_finishPlayerUnsold:
  "room_inv r \<Longrightarrow> \<not> timer (auction r) \<Longrightarrow> room_inv (finishPlayerUnsold now r)"
proof -
  assume a: "room_inv r" and b: "\<not> timer (auction r)"
  let ?r1 = "r\<lparr>auction := (auction r)\<lparr>biddingOpen := False\<rparr>\<rparr>"
  have "room_inv (emit (PlayerUnsold (item_at (playerPool (auction ?r1)) (currentPlayerIndex (auction ?r1)))) ?r1)"
    using a b by (simp add: room_inv_def inv_defs activeBidders_def small_defs)
  then show ?thesis
    by (simp add: finishPlayerUnsold_def Let_def room_inv_prepareNext small_defs)
qed

lemma room_inv_startNextPlayer: "room_inv r \<Longrightarrow> room_inv (startNextPlayer now r)"
proof -
  assume a: "room_inv r"
  then have "room_inv0 r" by (simp add: room_inv_def)
  from room_inv0_endAuctionPhase [OF this, of now] a show ?thesis
    by (simp add: startNextPlayer_def Let_def small_defs room_inv_def inv_defs activeBidders_def)
qed


lemma inv_host_iff: "inv_host r = (hostId r \<in> set (map fst (teams r)))"
  by (force simp: inv_host_def)

lemma in_teams_map_of:
  "distinct (map fst ts) \<Longrightarrow> ((k, t) \<in> set ts) = (map_of ts k = Some t)"
  by simp

text \<open>The sale inside finishBidding.\<close>

lemma room_inv0_sale:
  assumes inv: "room_inv r" and ntimer: "\<not> timer (auction r)" and op: "biddingOpen (auction r)"
    and w: "currentBidderId (auction r) = Some w" and t: "map_of (teams r) w = Some t"
    and price: "\<not> currentBid (auction r) > purse t"
  shows "room_inv0 (checkEliminations
           (r\<lparr>auction := (auction r)\<lparr>biddingOpen := False\<rparr>,
              teams := updTeam w (\<lambda>t. t\<lparr>purse := toFixed2 (purse t - currentBid (auction r)),
                                        squad := squad t @ [sp]\<rparr>) (teams r)\<rparr>))"
    (is "room_inv0 (checkEliminations ?r2)")
proof -
  from inv have d: "distinct (map fst (teams r))" by (simp add: room_inv_def inv_defs)
  have mem: "\<And>k x. ((k, x) \<in> set (teams r)) = (map_of (teams r) k = Some x)"
    using d by simp
  from inv op w t have ne: "\<not> isEliminated t"
    by (simp add: room_inv_def room_inv0_def inv_leader_def mem)
  from inv op have nl: "phase (auction r) \<noteq> LOBBY"
    by (auto simp: room_inv_def room_inv0_def inv_lobby_def)
  have set2: "set (teams (checkEliminations ?r2)) =
      (\<lambda>(k, t). (k, if eliminable t then t\<lparr>isEliminated := True\<rparr> else t)) `
      (\<lambda>(k, t). if k = w then (k, t\<lparr>purse := toFixed2 (purse t - currentBid (auction r)),
                                        squad := squad t @ [sp]\<rparr>) else (k, t)) ` set (teams r)"
    by (simp add: checkEliminations_def set_updTeam)
  have k1: "inv_keys (checkEliminations ?r2)" using d by (simp add: inv_keys_def)
  have k2: "inv_config (checkEliminations ?r2)" using inv by (simp add: room_inv_def inv_defs)
  have k3: "inv_elim (checkEliminations ?r2)"
    unfolding inv_elim_def set2
  proof (intro allI impI)
    fix k x assume "(k, x) \<in> (\<lambda>(k, t). (k, if eliminable t then t\<lparr>isEliminated := True\<rparr> else t)) `
      (\<lambda>(k, t). if k = w then (k, t\<lparr>purse := toFixed2 (purse t - currentBid (auction r)),
                                        squad := squad t @ [sp]\<rparr>) else (k, t)) ` set (teams r)"
    then obtain t0 where t0: "(k, t0) \<in> set (teams r)"
      and x: "x = (let t1 = (if k = w then t0\<lparr>purse := toFixed2 (purse t0 - currentBid (auction r)),
                                        squad := squad t0 @ [sp]\<rparr> else t0)
                   in if eliminable t1 then t1\<lparr>isEliminated := True\<rparr> else t1)"
      by (auto simp: Let_def split: if_splits)
    from inv t0 have e0: "isEliminated t0 = eliminable t0"
      by (auto simp: room_inv_def room_inv0_def inv_elim_def)
    show "(isEliminated x \<longrightarrow> eliminable x) \<and> (eliminable x \<longrightarrow> isEliminated x)"
    proof (cases "k = w")
      case True
      with t0 t have "t0 = t" by (simp add: mem)
      with True ne x show ?thesis by (simp add: Let_def eliminable_def)
    next
      case False
      with x e0 show ?thesis by (simp add: Let_def eliminable_def)
    qed
  qed
  have k4: "inv_nonneg (checkEliminations ?r2)"
    unfolding inv_nonneg_def set2
  proof (intro allI impI)
    fix k x assume "(k, x) \<in> (\<lambda>(k, t). (k, if eliminable t then t\<lparr>isEliminated := True\<rparr> else t)) `
      (\<lambda>(k, t). if k = w then (k, t\<lparr>purse := toFixed2 (purse t - currentBid (auction r)),
                                        squad := squad t @ [sp]\<rparr>) else (k, t)) ` set (teams r)"
    then obtain t0 where t0: "(k, t0) \<in> set (teams r)"
      and x: "purse x = (if k = w then toFixed2 (purse t0 - currentBid (auction r)) else purse t0)"
      by (auto simp: Let_def split: if_splits)
    from inv t0 have p0: "0 \<le> purse t0"
      by (auto simp: room_inv_def room_inv0_def inv_nonneg_def)
    show "0 \<le> purse x"
    proof (cases "k = w")
      case True
      with t0 t have "t0 = t" by (simp add: mem)
      with True price x show ?thesis by (simp add: toFixed2_nonneg)
    next
      case False
      with x p0 show ?thesis by simp
    qed
  qed
  have k5: "inv_leader (checkEliminations ?r2)" by (simp add: inv_leader_def)
  have k6: "inv_timer (checkEliminations ?r2)" using ntimer by (simp add: inv_timer_def)
  have k7: "inv_index (checkEliminations ?r2)" by (simp add: inv_index_def)
  have "hostId r \<in> set (map fst (teams r))"
    using inv by (simp add: room_inv_def room_inv0_def inv_host_iff)
  then have k8: "inv_host (checkEliminations ?r2)"
    unfolding inv_host_iff by simp
  have k9: "inv_lobby (checkEliminations ?r2)" using nl by (simp add: inv_lobby_def)
  from k1 k2 k3 k4 k5 k6 k7 k8 k9 show ?thesis by (simp add: room_inv0_def)
qed


lemma room_inv_emit [simp]: "room_inv (emit e r) = room_inv r" "room_inv0 (emit e r) = room_inv0 r"
  by (simp_all add: room_inv_def inv_defs emit_def activeBidders_def)

lemma room_inv_updateRoomActivity [simp]:
  "room_inv (updateRoomActivity now r) = room_inv r"
  "room_inv0 (updateRoomActivity now r) = room_inv0 r"
  by (simp_all add: room_inv_def inv_defs updateRoomActivity_def activeBidders_def)

lemma biddingOpen_checkAuctionCompletion:
  "\<not> biddingOpen (auction r) \<Longrightarrow> \<not> biddingOpen (auction (checkAuctionCompletion now r))"
  by (simp add: checkAuctionCompletion_def endAuctionPhase_def small_defs)

lemma finishBidding_no_team:
  "(case currentBidderId (auction r) of None \<Rightarrow> None | Some w \<Rightarrow> map_of (teams r) w) = None \<Longrightarrow>
   finishBidding now r =
     Some (prepareNext now (checkAuctionCompletion now
       (emit (PlayerUnsold (item_at (playerPool (auction r)) (currentPlayerIndex (auction r))))
          (r\<lparr>auction := (auction r)\<lparr>biddingOpen := False\<rparr>\<rparr>))))"
  by (auto simp: finishBidding_def Let_def split: option.splits)

lemma finishBidding_cannot_pay:
  "currentBidderId (auction r) = Some w \<Longrightarrow> map_of (teams r) w = Some t \<Longrightarrow>
   currentBid (auction r) > purse t \<or> length (squad t) \<ge> MAX_SQUAD_SIZE \<Longrightarrow>
   finishBidding now r =
     Some (finishPlayerUnsold now (r\<lparr>auction := (auction r)\<lparr>biddingOpen := False\<rparr>\<rparr>))"
  by (auto simp: finishBidding_def Let_def)

lemma finishBidding_no_item:
  "currentBidderId (auction r) = Some w \<Longrightarrow> map_of (teams r) w = Some t \<Longrightarrow>
   \<not> currentBid (auction r) > purse t \<Longrightarrow> length (squad t) < MAX_SQUAD_SIZE \<Longrightarrow>
   item_at (playerPool (auction r)) (currentPlayerIndex (auction r)) = None \<Longrightarrow>
   finishBidding now r = None"
  by (simp add: finishBidding_def Let_def)

lemma finishBidding_sold:
  "currentBidderId (auction r) = Some w \<Longrightarrow> map_of (teams r) w = Some t \<Longrightarrow>
   \<not> currentBid (auction r) > purse t \<Longrightarrow> length (squad t) < MAX_SQUAD_SIZE \<Longrightarrow>
   item_at (playerPool (auction r)) (currentPlayerIndex (auction r)) = Some p \<Longrightarrow>
   \<exists>e. finishBidding now r =
     Some (prepareNext now (checkAuctionCompletion now (emit e
       (checkEliminations
         (r\<lparr>auction := (auction r)\<lparr>biddingOpen := False\<rparr>,
            teams := updTeam w (\<lambda>t. t\<lparr>purse := toFixed2 (purse t - currentBid (auction r)),
                      squad := squad t @ [p\<lparr>soldPrice := Some (currentBid (auction r))\<rparr>]\<rparr>)
                      (teams r)\<rparr>)))))"
  by (simp add: finishBidding_def Let_def del: map_of_checkEliminations) blast

lemma room_inv_finishBidding:
  assumes inv: "room_inv r" and ntimer: "\<not> timer (auction r)" and op: "biddingOpen (auction r)"
    and fb: "finishBidding now r = Some r'"
  shows "room_inv r'"
proof -
  let ?r1 = "r\<lparr>auction := (auction r)\<lparr>biddingOpen := False\<rparr>\<rparr>"
  have inv1: "room_inv ?r1" using inv ntimer
    by (simp add: room_inv_def inv_defs activeBidders_def)
  have un: "room_inv (finishPlayerUnsold now ?r1)"
    using inv1 ntimer by (simp add: room_inv_finishPlayerUnsold)
  have nf: "\<And>e. room_inv (prepareNext now (checkAuctionCompletion now (emit e ?r1)))"
  proof -
    fix e
    from inv1 have "room_inv0 (emit e ?r1)" by (simp add: room_inv_def)
    then have "room_inv (checkAuctionCompletion now (emit e ?r1))"
      by (rule room_inv_checkAuctionCompletion)
    then show "room_inv (prepareNext now (checkAuctionCompletion now (emit e ?r1)))"
      by (rule room_inv_prepareNext)
         (simp add: biddingOpen_checkAuctionCompletion emit_def)
  qed
  show ?thesis
  proof (cases "currentBidderId (auction r)")
    case None
    then show ?thesis using fb nf finishBidding_no_team [of r now] by auto
  next
    case (Some w)
    note w = Some
    show ?thesis
    proof (cases "map_of (teams r) w")
      case None
      then show ?thesis using w fb nf finishBidding_no_team [of r now] by auto
    next
      case (Some t)
      note t = Some
      show ?thesis
      proof (cases "currentBid (auction r) > purse t \<or> length (squad t) \<ge> MAX_SQUAD_SIZE")
        case True
        from finishBidding_cannot_pay [OF w t True, of now] fb un show ?thesis by simp
      next
        case False
        then have price: "\<not> currentBid (auction r) > purse t"
          and room: "length (squad t) < MAX_SQUAD_SIZE" by simp_all
        show ?thesis
        proof (cases "item_at (playerPool (auction r)) (currentPlayerIndex (auction r))")
          case None
          from finishBidding_no_item [OF w t price room None, of now] fb show ?thesis by simp
        next
          case (Some p)
          let ?r3 = "checkEliminations
             (r\<lparr>auction := (auction r)\<lparr>biddingOpen := False\<rparr>,
                teams := updTeam w (\<lambda>t. t\<lparr>purse := toFixed2 (purse t - currentBid (auction r)),
                          squad := squad t @ [p\<lparr>soldPrice := Some (currentBid (auction r))\<rparr>]\<rparr>) (teams r)\<rparr>)"
          have i3: "room_inv0 ?r3"
            by (rule room_inv0_sale [OF inv ntimer op w t price])
          have "\<And>e. room_inv (prepareNext now (checkAuctionCompletion now (emit e ?r3)))"
          proof -
            fix e
            from i3 have "room_inv0 (emit e ?r3)" by simp
            then have "room_inv (checkAuctionCompletion now (emit e ?r3))"
              by (rule room_inv_checkAuctionCompletion)
            then show "room_inv (prepareNext now (checkAuctionCompletion now (emit e ?r3)))"
              by (rule room_inv_prepareNext)
                 (simp add: biddingOpen_checkAuctionCompletion emit_def)
          qed
          with finishBidding_sold [OF w t price room Some, of now] fb show ?thesis by auto
        qed
      qed
    qed
  qed
qed

lemma room_inv_emitResults [simp]: "room_inv (emitResults r) = room_inv r"
  by (simp add: emitResults_def)

lemma in_updTeamD:
  "(k, x) \<in> set (updTeam u f ts) \<Longrightarrow> \<exists>t. (k, t) \<in> set ts \<and> (x = t \<or> x = f t)"
  by (auto simp: updTeam_def split: if_splits)

lemma in_updTeamI:
  "(k, t) \<in> set ts \<Longrightarrow> (k, if k = u then f t else t) \<in> set (updTeam u f ts)"
  by (force simp: updTeam_def)

lemma room_inv0_updTeam:
  assumes inv: "room_inv0 r"
    and f: "\<And>t. isEliminated (f t) = isEliminated t \<and> purse (f t) = purse t \<and> squad (f t) = squad t"
    and fin: "phase (auction r) = LOBBY \<Longrightarrow> (\<And>t. isFinishedBidding (f t) = isFinishedBidding t)"
  shows "room_inv0 (r\<lparr>teams := updTeam u f (teams r)\<rparr>)"
proof -
  let ?r = "r\<lparr>teams := updTeam u f (teams r)\<rparr>"
  have el: "\<And>t. eliminable (f t) = eliminable t" by (simp add: eliminable_def f)
  from inv have i1: "inv_keys r" and i2: "inv_config r" and i3: "inv_elim r" and i4: "inv_nonneg r"
    and i5: "inv_leader r" and i6: "inv_timer r" and i7: "inv_index r" and i8: "inv_host r"
    and i9: "inv_lobby r" by (simp_all add: room_inv0_def)
  have k1: "inv_keys ?r" using i1 by (simp add: inv_keys_def)
  have k2: "inv_config ?r" using i2 by (simp add: inv_config_def)
  have k3: "inv_elim ?r"
    unfolding inv_elim_def
  proof (intro allI impI)
    fix k x assume "(k, x) \<in> set (teams ?r)"
    then obtain t where "(k, t) \<in> set (teams r)" "x = t \<or> x = f t"
      using in_updTeamD [of k x u f "teams r"] by auto
    with i3 show "(isEliminated x \<longrightarrow> eliminable x) \<and> (eliminable x \<longrightarrow> isEliminated x)"
      unfolding inv_elim_def using f el by blast
  qed
  have k4: "inv_nonneg ?r"
    unfolding inv_nonneg_def
  proof (intro allI impI)
    fix k x assume "(k, x) \<in> set (teams ?r)"
    then obtain t where "(k, t) \<in> set (teams r)" "x = t \<or> x = f t"
      using in_updTeamD [of k x u f "teams r"] by auto
    with i4 show "0 \<le> purse x"
      unfolding inv_nonneg_def using f by metis
  qed
  have k5: "inv_leader ?r"
    unfolding inv_leader_def
  proof (intro allI impI)
    fix w x assume op: "biddingOpen (auction ?r)" and w: "currentBidderId (auction ?r) = Some w"
      and "(w, x) \<in> set (teams ?r)"
    then obtain t where "(w, t) \<in> set (teams r)" "x = t \<or> x = f t"
      using in_updTeamD [of w x u f "teams r"] by auto
    with i5 op w show "\<not> isEliminated x"
      unfolding inv_leader_def using f by auto
  qed
  have k6: "inv_timer ?r" using i6 by (simp add: inv_timer_def)
  have k7: "inv_index ?r" using i7 by (simp add: inv_index_def)
  have k8: "inv_host ?r" using i8 by (simp add: inv_host_iff)
  have k9: "inv_lobby ?r"
    unfolding inv_lobby_def
  proof (rule impI)
    assume ph: "phase (auction ?r) = LOBBY"
    then have ph': "phase (auction r) = LOBBY" by simp
    from i9 ph' have nb: "\<not> biddingOpen (auction ?r)" by (simp add: inv_lobby_def)
    have "\<And>k x. (k, x) \<in> set (teams ?r) \<Longrightarrow>
            squad x = [] \<and> \<not> isFinishedBidding x \<and> \<not> isEliminated x"
    proof -
      fix k x assume "(k, x) \<in> set (teams ?r)"
      then obtain t where t: "(k, t) \<in> set (teams r)" "x = t \<or> x = f t"
        using in_updTeamD [of k x u f "teams r"] by auto
      from i9 ph' t(1) have "squad t = [] \<and> \<not> isFinishedBidding t \<and> \<not> isEliminated t"
        by (simp add: inv_lobby_def)
      with t(2) f fin [OF ph'] show "squad x = [] \<and> \<not> isFinishedBidding x \<and> \<not> isEliminated x"
        by auto
    qed
    with nb show "\<not> biddingOpen (auction ?r) \<and>
      (\<forall>k t. (k, t) \<in> set (teams ?r) \<longrightarrow>
         squad t = [] \<and> \<not> isFinishedBidding t \<and> \<not> isEliminated t)" by blast
  qed
  from k1 k2 k3 k4 k5 k6 k7 k8 k9 show ?thesis by (simp add: room_inv0_def)
qed

lemma inv_active_updTeam:
  assumes inv: "inv_active r" and f: "\<And>t. isActive (f t) = isActive t"
  shows "inv_active (r\<lparr>teams := updTeam u f (teams r)\<rparr>)"
  unfolding inv_active_def
proof
  assume "phase (auction (r\<lparr>teams := updTeam u f (teams r)\<rparr>)) = AUCTION"
  with inv obtain k t where t: "(k, t) \<in> set (teams r)" "isActive t"
    by (auto simp: inv_active_def activeBidders_empty_iff)
  from in_updTeamI [OF t(1), of u f] t(2) f
  have "\<exists>k t. (k, t) \<in> set (updTeam u f (teams r)) \<and> isActive t"
    by (cases "k = u") auto
  then show "activeBidders (r\<lparr>teams := updTeam u f (teams r)\<rparr>) \<noteq> []"
    by (simp add: activeBidders_empty_iff)
qed

lemma room_inv_append_team:
  assumes inv: "room_inv r" and nk: "map_of (teams r) u = None"
  shows "room_inv (r\<lparr>teams := teams r @ [(u, newTeam u nm (startingPurse r))]\<rparr>)"
proof -
  let ?r = "r\<lparr>teams := teams r @ [(u, newTeam u nm (startingPurse r))]\<rparr>"
  from inv have i1: "inv_keys r" and i2: "inv_config r" and i3: "inv_elim r" and i4: "inv_nonneg r"
    and i5: "inv_leader r" and i6: "inv_timer r" and i7: "inv_index r" and i8: "inv_host r"
    and i9: "inv_lobby r" and i10: "inv_active r" by (simp_all add: room_inv_def room_inv0_def)
  from nk have nk': "u \<notin> fst ` set (teams r)" by (simp add: map_of_eq_None_iff)
  from i2 have cfg: "50 \<le> startingPurse r" by (simp add: inv_config_def)
  note ne = newTeam_not_eliminable [OF cfg, of u nm]
  have k1: "inv_keys ?r" using i1 nk' by (simp add: inv_keys_def)
  have k2: "inv_config ?r" using i2 by (simp add: inv_config_def)
  have k3: "inv_elim ?r" using i3 ne by (auto simp: inv_elim_def)
  have k4: "inv_nonneg ?r" using i4 cfg by (auto simp: inv_nonneg_def)
  have k5: "inv_leader ?r" using i5 by (auto simp: inv_leader_def)
  have k6: "inv_timer ?r" using i6 by (simp add: inv_timer_def)
  have k7: "inv_index ?r" using i7 by (simp add: inv_index_def)
  have k8: "inv_host ?r" using i8 by (auto simp: inv_host_def)
  have k9: "inv_lobby ?r" using i9 by (auto simp: inv_lobby_def)
  have k10: "inv_active ?r" using i10 by (auto simp: inv_active_def activeBidders_def)
  from k1 k2 k3 k4 k5 k6 k7 k8 k9 k10 show ?thesis by (simp add: room_inv_def room_inv0_def)
qed

lemma room_inv_joinRoom: "room_inv r \<Longrightarrow> room_inv (joinRoom now u nm r)"
proof -
  assume inv: "room_inv r"
  define r1 where "r1 = (if map_of (teams r) u = None
                then r\<lparr>teams := teams r @ [(u, newTeam u nm (startingPurse r))]\<rparr> else r)"
  have r1: "room_inv r1"
    unfolding r1_def using inv room_inv_append_team [OF inv, of u nm] by (cases "map_of (teams r) u") auto
  define r3 where "r3 = (if phase (auction (updateRoomActivity now r1)) = AUCTION \<and>
                    biddingOpen (auction (updateRoomActivity now r1)) then updateRoomActivity now r1
                else if phase (auction (updateRoomActivity now r1)) = SELECTION then updateRoomActivity now r1
                else if phase (auction (updateRoomActivity now r1)) = RESULT
                  then emitResults (updateRoomActivity now r1)
                else updateRoomActivity now r1)"
  from r1 have r3: "room_inv r3" unfolding r3_def by simp
  then have "inv_elim r3" by (simp add: room_inv_def room_inv0_def)
  from checkEliminations_id [OF this] r3
  have "room_inv (emit TeamsUpdated (checkEliminations r3))" by simp
  moreover have "joinRoom now u nm r = emit TeamsUpdated (checkEliminations r3)"
    by (simp only: joinRoom_def Let_def r3_def r1_def)
  ultimately show ?thesis by simp
qed

lemma room_inv_rejoinGame: "room_inv r \<Longrightarrow> room_inv (rejoinGame now u r)"
  by (cases "map_of (teams r) u") (simp_all add: rejoinGame_def Let_def)

lemma room_inv0_delTeam:
  assumes inv: "room_inv0 r" and h: "h \<in> set (map fst (delTeam u (teams r)))"
  shows "room_inv0 (r\<lparr>teams := delTeam u (teams r), hostId := h\<rparr>)"
proof -
  define r' where "r' = r\<lparr>teams := delTeam u (teams r), hostId := h\<rparr>"
  have au: "auction r' = auction r" and sp: "startingPurse r' = startingPurse r"
    and hh: "hostId r' = h" and tt: "teams r' = delTeam u (teams r)"
    by (simp_all add: r'_def)
  from inv have i1: "inv_keys r" and i2: "inv_config r" and i3: "inv_elim r" and i4: "inv_nonneg r"
    and i5: "inv_leader r" and i6: "inv_timer r" and i7: "inv_index r" and i8: "inv_host r"
    and i9: "inv_lobby r" by (simp_all add: room_inv0_def)
  have sub: "\<And>k t. (k, t) \<in> set (teams r') \<Longrightarrow> (k, t) \<in> set (teams r)"
    unfolding tt delTeam_def by simp
  have k1: "inv_keys r'" using i1
    unfolding inv_keys_def tt delTeam_def by (rule distinct_map_filter)
  have k2: "inv_config r'" using i2 unfolding inv_config_def sp .
  have k3: "inv_elim r'" using i3 sub unfolding inv_elim_def by blast
  have k4: "inv_nonneg r'" using i4 sub unfolding inv_nonneg_def by blast
  have k5: "inv_leader r'" using i5 sub unfolding inv_leader_def au by blast
  have k6: "inv_timer r'" using i6 unfolding inv_timer_def au .
  have k7: "inv_index r'" using i7 unfolding inv_index_def au .
  have k8: "inv_host r'" using h unfolding inv_host_iff hh tt .
  have k9: "inv_lobby r'" using i9 sub unfolding inv_lobby_def au by blast
  from k1 k2 k3 k4 k5 k6 k7 k8 k9 show ?thesis unfolding r'_def [symmetric] room_inv0_def by simp
qed

lemma room_inv_leaveRoom:
  assumes inv: "room_inv r" and l: "leaveRoom now u r = Room r'"
  shows "room_inv r'"
proof (cases "hostId r = u")
  case True
  with l obtain k ks where ks: "map fst (delTeam u (teams r)) = k # ks"
    and r': "r' = checkAuctionCompletion now (emit TeamsUpdated
                (r\<lparr>teams := delTeam u (teams r), hostId := k\<rparr>))"
    by (auto simp: leaveRoom_def Let_def split: list.splits)
  from ks have "k \<in> set (map fst (delTeam u (teams r)))" by simp
  from room_inv0_delTeam [OF _ this] inv
  have "room_inv0 (r\<lparr>teams := delTeam u (teams r), hostId := k\<rparr>)" by (simp add: room_inv_def)
  then show ?thesis unfolding r' by (intro room_inv_checkAuctionCompletion) simp
next
  case False
  with l have r': "r' = checkAuctionCompletion now (emit TeamsUpdated
                (r\<lparr>teams := delTeam u (teams r), hostId := hostId r\<rparr>))"
    by (auto simp: leaveRoom_def Let_def)
  from inv have "hostId r \<in> set (map fst (teams r))"
    by (simp add: room_inv_def room_inv0_def inv_host_iff)
  with False have "hostId r \<in> set (map fst (delTeam u (teams r)))"
    by (force simp: set_delTeam)
  from room_inv0_delTeam [OF _ this] inv
  have "room_inv0 (r\<lparr>teams := delTeam u (teams r), hostId := hostId r\<rparr>)"
    by (simp add: room_inv_def)
  then show ?thesis unfolding r' by (intro room_inv_checkAuctionCompletion) simp
qed

lemma room_inv_finishBiddingForMe: "room_inv r \<Longrightarrow> room_inv (finishBiddingForMe now u r)"
proof (cases "map_of (teams r) u")
  case None
  assume "room_inv r"
  with None show ?thesis by (simp add: finishBiddingForMe_def)
next
  case (Some t)
  assume inv: "room_inv r"
  show ?thesis
  proof (cases "length (squad t) \<ge> MIN_SQUAD_TO_PLAY \<and> \<not> isEliminated t")
    case False
    with Some inv show ?thesis by (auto simp: finishBiddingForMe_def)
  next
    case True
    from Some have mem: "(u, t) \<in> set (teams r)" by (rule map_of_SomeD)
    from True have "squad t \<noteq> []" by (auto simp: MIN_SQUAD_TO_PLAY_def)
    with inv mem have nl: "phase (auction r) \<noteq> LOBBY"
      by (auto simp: room_inv_def room_inv0_def inv_lobby_def)
    from inv have "room_inv0 r" by (simp add: room_inv_def)
    then have "room_inv0 (r\<lparr>teams := updTeam u (\<lambda>t. t\<lparr>isFinishedBidding := True\<rparr>) (teams r)\<rparr>)"
      by (rule room_inv0_updTeam) (simp_all add: nl)
    then have "room_inv (checkAuctionCompletion now (emit TeamsUpdated (updateRoomActivity now
        (r\<lparr>teams := updTeam u (\<lambda>t. t\<lparr>isFinishedBidding := True\<rparr>) (teams r)\<rparr>))))"
      by (intro room_inv_checkAuctionCompletion) simp
    with Some True show ?thesis by (simp add: finishBiddingForMe_def)
  qed
qed

lemma room_inv_startAuction: "room_inv r \<Longrightarrow> room_inv (startAuction now u r)"
proof (cases "hostId r = u \<and> phase (auction r) = LOBBY")
  case False
  assume "room_inv r"
  with False show ?thesis by (auto simp: startAuction_def)
next
  case True
  assume inv: "room_inv r"
  define r1 where "r1 = r\<lparr>auction := (auction r)\<lparr>phase := AUCTION\<rparr>\<rparr>"
  have au: "biddingOpen (auction r1) = biddingOpen (auction r)"
    "timer (auction r1) = timer (auction r)"
    "currentBidderId (auction r1) = currentBidderId (auction r)"
    "currentPlayerIndex (auction r1) = currentPlayerIndex (auction r)"
    "playerPool (auction r1) = playerPool (auction r)"
    "phase (auction r1) = AUCTION"
    and sp: "startingPurse r1 = startingPurse r" and hh: "hostId r1 = hostId r"
    and tt: "teams r1 = teams r"
    by (simp_all add: r1_def)
  from inv have i1: "inv_keys r" and i2: "inv_config r" and i3: "inv_elim r" and i4: "inv_nonneg r"
    and i5: "inv_leader r" and i6: "inv_timer r" and i7: "inv_index r" and i8: "inv_host r"
    and i9: "inv_lobby r" by (simp_all add: room_inv_def room_inv0_def)
  have k1: "inv_keys r1" using i1 unfolding inv_keys_def tt .
  have k2: "inv_config r1" using i2 unfolding inv_config_def sp .
  have k3: "inv_elim r1" using i3 unfolding inv_elim_def tt .
  have k4: "inv_nonneg r1" using i4 unfolding inv_nonneg_def tt .
  have k5: "inv_leader r1" using i5 unfolding inv_leader_def tt au .
  have k6: "inv_timer r1" using i6 unfolding inv_timer_def au .
  have k7: "inv_index r1" using i7 unfolding inv_index_def au .
  have k8: "inv_host r1" using i8 unfolding inv_host_def tt hh .
  have k9: "inv_lobby r1" unfolding inv_lobby_def au by simp
  from i8 obtain t where t: "(hostId r, t) \<in> set (teams r)" by (auto simp: inv_host_def)
  with i9 True have "isActive t"
    by (auto simp: inv_lobby_def isActive_def MAX_SQUAD_SIZE_def)
  with t have k10: "inv_active r1"
    unfolding inv_active_def activeBidders_empty_iff tt by blast
  from k1 k2 k3 k4 k5 k6 k7 k8 k9 k10 have "room_inv r1" by (simp add: room_inv_def room_inv0_def)
  then have "room_inv (startNextPlayer now (emit AuctionStartedSignal (updateRoomActivity now r1)))"
    by (intro room_inv_startNextPlayer) simp
  with True show ?thesis by (simp add: startAuction_def r1_def)
qed

lemma room_inv_accepted_bid:
  assumes inv: "room_inv r" and op: "biddingOpen (auction r)"
    and t: "map_of (teams r) u = Some t" and ne: "\<not> isEliminated t"
  shows "room_inv (r\<lparr>auction := (auction r)\<lparr>currentBid := b, currentBidderId := Some u,
           skippedBy := [], timeLeft := 10, timer := True\<rparr>\<rparr>)"
proof -
  define r1 where "r1 = r\<lparr>auction := (auction r)\<lparr>currentBid := b, currentBidderId := Some u,
           skippedBy := [], timeLeft := 10, timer := True\<rparr>\<rparr>"
  have au: "biddingOpen (auction r1) = biddingOpen (auction r)"
    "timer (auction r1) = True"
    "currentBidderId (auction r1) = Some u"
    "currentPlayerIndex (auction r1) = currentPlayerIndex (auction r)"
    "playerPool (auction r1) = playerPool (auction r)"
    "phase (auction r1) = phase (auction r)"
    and sp: "startingPurse r1 = startingPurse r" and hh: "hostId r1 = hostId r"
    and tt: "teams r1 = teams r"
    by (simp_all add: r1_def)
  from inv have i1: "inv_keys r" and i2: "inv_config r" and i3: "inv_elim r" and i4: "inv_nonneg r"
    and i5: "inv_leader r" and i6: "inv_timer r" and i7: "inv_index r" and i8: "inv_host r"
    and i9: "inv_lobby r" and i10: "inv_active r" by (simp_all add: room_inv_def room_inv0_def)
  have k1: "inv_keys r1" using i1 unfolding inv_keys_def tt .
  have k2: "inv_config r1" using i2 unfolding inv_config_def sp .
  have k3: "inv_elim r1" using i3 unfolding inv_elim_def tt .
  have k4: "inv_nonneg r1" using i4 unfolding inv_nonneg_def tt .
  have "\<And>x. (u, x) \<in> set (teams r) \<Longrightarrow> x = t"
    using i1 t unfolding inv_keys_def by simp
  with ne have k5: "inv_leader r1" unfolding inv_leader_def tt au by blast
  have k6: "inv_timer r1" using op unfolding inv_timer_def au by simp
  have k7: "inv_index r1" using i7 unfolding inv_index_def au .
  have k8: "inv_host r1" using i8 unfolding inv_host_def tt hh .
  have k9: "inv_lobby r1" using i9 unfolding inv_lobby_def tt au .
  have k10: "inv_active r1" using i10 unfolding inv_active_def activeBidders_def tt au .
  from k1 k2 k3 k4 k5 k6 k7 k8 k9 k10 show ?thesis
    unfolding r1_def [symmetric] by (simp add: room_inv_def room_inv0_def)
qed

lemma startAuctionTimer_commute:
  "startAuctionTimer (emit e r) = emit e (startAuctionTimer r)"
  "startAuctionTimer (updateRoomActivity now r) = updateRoomActivity now (startAuctionTimer r)"
  by (simp_all add: small_defs)

lemma placeBid_cases:
  "placeBid now u amount r = None \<or> placeBid now u amount r = Some r \<or>
   (\<exists>a t player. amount = Fin a \<and> biddingOpen (auction r) \<and> map_of (teams r) u = Some t \<and>
      \<not> isEliminated t \<and> \<not> isFinishedBidding t \<and> length (squad t) < MAX_SQUAD_SIZE \<and>
      currentBid (auction r) + BID_INCREMENT \<le> a \<and> a \<le> purse t \<and>
      item_at (playerPool (auction r)) (currentPlayerIndex (auction r)) = Some player \<and>
      (isOverseas player \<longrightarrow> length (filter isOverseas (squad t)) < MAX_OVERSEAS_SQUAD) \<and>
      placeBid now u amount r =
        Some (startAuctionTimer (emit (BidUpdated (toFixed2 a) u (tname t))
          (updateRoomActivity now
            (r\<lparr>auction := (auction r)\<lparr>currentBid := toFixed2 a, currentBidderId := Some u,
                  skippedBy := []\<rparr>\<rparr>)))))"
  by (cases amount)
     (auto simp: placeBid_def Let_def updateRoomActivity_def split: option.splits)

lemma room_inv_placeBid:
  assumes inv: "room_inv r" and p: "placeBid now u amount r = Some r'"
  shows "room_inv r'"
proof -
  from placeBid_cases [of now u amount r] p
  consider "r' = r"
    | a t where "biddingOpen (auction r)" "map_of (teams r) u = Some t" "\<not> isEliminated t"
       "r' = startAuctionTimer (emit (BidUpdated (toFixed2 a) u (tname t))
          (updateRoomActivity now
            (r\<lparr>auction := (auction r)\<lparr>currentBid := toFixed2 a, currentBidderId := Some u,
                  skippedBy := []\<rparr>\<rparr>)))"
    by auto
  then show ?thesis
  proof cases
    case 1
    with inv show ?thesis by simp
  next
    case (2 a t)
    from room_inv_accepted_bid [OF inv 2(1) 2(2) 2(3), of "toFixed2 a"]
    show ?thesis unfolding 2(4) startAuctionTimer_commute
      by (simp add: startAuctionTimer_def)
  qed
qed

lemma room_inv_frame:
  assumes inv: "room_inv r"
    and tt: "teams r' = teams r" and hh: "hostId r' = hostId r"
    and sp: "startingPurse r' = startingPurse r"
    and au: "biddingOpen (auction r') = biddingOpen (auction r)"
      "currentBidderId (auction r') = currentBidderId (auction r)"
      "currentPlayerIndex (auction r') = currentPlayerIndex (auction r)"
      "playerPool (auction r') = playerPool (auction r)"
      "phase (auction r') = phase (auction r) \<or>
         (phase (auction r') = RESULT)"
    and tm: "timer (auction r') \<longrightarrow> timer (auction r)"
  shows "room_inv r'"
proof -
  from inv have i1: "inv_keys r" and i2: "inv_config r" and i3: "inv_elim r" and i4: "inv_nonneg r"
    and i5: "inv_leader r" and i6: "inv_timer r" and i7: "inv_index r" and i8: "inv_host r"
    and i9: "inv_lobby r" and i10: "inv_active r" by (simp_all add: room_inv_def room_inv0_def)
  have k1: "inv_keys r'" using i1 unfolding inv_keys_def tt .
  have k2: "inv_config r'" using i2 unfolding inv_config_def sp .
  have k3: "inv_elim r'" using i3 unfolding inv_elim_def tt .
  have k4: "inv_nonneg r'" using i4 unfolding inv_nonneg_def tt .
  have k5: "inv_leader r'" using i5 unfolding inv_leader_def tt au .
  have k6: "inv_timer r'" using i6 tm unfolding inv_timer_def au by blast
  have k7: "inv_index r'" using i7 unfolding inv_index_def au .
  have k8: "inv_host r'" using i8 unfolding inv_host_def tt hh .
  have k9: "inv_lobby r'" using i9 au(5) unfolding inv_lobby_def tt au(1) by auto
  have k10: "inv_active r'" using i10 au(5) unfolding inv_active_def activeBidders_def tt by auto
  from k1 k2 k3 k4 k5 k6 k7 k8 k9 k10 show ?thesis by (simp add: room_inv_def room_inv0_def)
qed

lemma room_inv_calculateWinner: "room_inv r \<Longrightarrow> room_inv (calculateWinner now r)"
  by (erule room_inv_frame) (simp_all add: calculateWinner_def Let_def small_defs)

lemma room_inv_skipForMe:
  assumes inv: "room_inv r" and s: "skipForMe now u r = Some r'"
  shows "room_inv r'"
proof (cases "biddingOpen (auction r)")
  case False
  with s inv show ?thesis by (simp add: skipForMe_def)
next
  case op: True
  show ?thesis
  proof (cases "map_of (teams r) u")
    case None
    with s inv op show ?thesis by (simp add: skipForMe_def)
  next
    case (Some t)
    show ?thesis
    proof (cases "isEliminated t \<or> isFinishedBidding t")
      case True
      with s inv op Some show ?thesis by (auto simp: skipForMe_def)
    next
      case False
      define r1 where "r1 = (if u \<in> set (skippedBy (auction r)) then r
                       else r\<lparr>auction := (auction r)\<lparr>skippedBy := skippedBy (auction r) @ [u]\<rparr>\<rparr>)"
      define r2 where "r2 = r1\<lparr>auction := (auction r1)\<lparr>timer := False\<rparr>\<rparr>"
      have i1: "room_inv r1" by (rule room_inv_frame [OF inv]) (simp_all add: r1_def)
      have i2: "room_inv r2" by (rule room_inv_frame [OF inv]) (simp_all add: r2_def r1_def)
      have op2: "biddingOpen (auction r2)" "\<not> timer (auction r2)" using op
        by (simp_all add: r2_def r1_def)
      from s op Some False
      have "r' = r1 \<or> finishBidding now r2 = Some r' \<or> r' = finishPlayerUnsold now r2"
        unfolding skipForMe_def r2_def r1_def Let_def
        by (auto split: if_splits)
      with i1 room_inv_finishBidding [OF i2 op2(2) op2(1)]
        room_inv_finishPlayerUnsold [OF i2 op2(2)]
      show ?thesis by blast
    qed
  qed
qed

lemma room_inv_timerTick:
  assumes inv: "room_inv r" and s: "timerTick now r = Some r'"
  shows "room_inv r'"
proof (cases "timer (auction r)")
  case False
  with s inv show ?thesis by (simp add: timerTick_def)
next
  case tm: True
  with inv have op: "biddingOpen (auction r)" by (simp add: room_inv_def room_inv0_def inv_timer_def)
  define r2 where "r2 = emit (TimerUpdate (timeLeft (auction r) - 1))
      (r\<lparr>auction := (auction r)\<lparr>timeLeft := timeLeft (auction r) - 1\<rparr>\<rparr>)"
  define r3 where "r3 = r2\<lparr>auction := (auction r2)\<lparr>timer := False\<rparr>\<rparr>"
  have i2: "room_inv r2" by (rule room_inv_frame [OF inv]) (simp_all add: r2_def emit_def)
  have i3: "room_inv r3" by (rule room_inv_frame [OF inv]) (simp_all add: r3_def r2_def emit_def)
  have op3: "biddingOpen (auction r3)" "\<not> timer (auction r3)" using op
    by (simp_all add: r3_def r2_def emit_def)
  from s tm
  have "r' = r2 \<or> finishBidding now r3 = Some r' \<or> r' = finishPlayerUnsold now r3"
    unfolding timerTick_def r3_def r2_def Let_def
    by (auto simp: emit_def split: if_splits)
  with i2 room_inv_finishBidding [OF i3 op3(2) op3(1)]
    room_inv_finishPlayerUnsold [OF i3 op3(2)]
  show ?thesis by blast
qed

lemma room_inv_nextPlayerFire: "room_inv r \<Longrightarrow> room_inv (nextPlayerFire now r)"
proof -
  assume inv: "room_inv r"
  have "room_inv (r\<lparr>nextPlayerTimeout := False\<rparr>)"
    by (rule room_inv_frame [OF inv]) simp_all
  with inv show ?thesis by (simp add: nextPlayerFire_def Let_def room_inv_startNextPlayer)
qed

lemma room_inv_restart: "room_inv r \<Longrightarrow> restart now r = Room r' \<Longrightarrow> room_inv r'"
proof -
  assume inv: "room_inv r" and "restart now r = Room r'"
  then have r': "r' = loadRoom (cleanRoom r)" by (auto simp: restart_def Let_def split: if_splits)
  show ?thesis unfolding r'
    by (rule room_inv_frame [OF inv]) (simp_all add: loadRoom_def cleanRoom_def)
qed

lemma room_inv_cleanupSweep: "room_inv r \<Longrightarrow> cleanupSweep now r = Room r' \<Longrightarrow> room_inv r'"
  by (auto simp: cleanupSweep_def split: if_splits)

lemma submitPlaying11_cases:
  "submitPlaying11 now u ids c vc r = r \<or>
   (\<exists>sc sel. submitPlaying11 now u ids c vc r =
      (let r2 = updateRoomActivity now (r\<lparr>teams := updTeam u
                 (\<lambda>t. t\<lparr>totalScore := sc, submitted11 := True, playing11 := Some sel\<rparr>) (teams r)\<rparr>)
       in if list_all submitted11 (filter (\<lambda>t. \<not> isEliminated t) (map snd (teams r2)))
          then calculateWinner now r2 else emit TeamsUpdated r2))"
  unfolding submitPlaying11_def Let_def
  by (auto split: option.splits)

lemma room_inv_submitPlaying11:
  assumes inv: "room_inv r"
  shows "room_inv (submitPlaying11 now u ids c vc r)"
proof -
  have "\<And>sc sel. room_inv (updateRoomActivity now (r\<lparr>teams := updTeam u
                 (\<lambda>t. t\<lparr>totalScore := sc, submitted11 := True, playing11 := Some sel\<rparr>) (teams r)\<rparr>))"
  proof -
    fix sc sel
    let ?f = "\<lambda>t. t\<lparr>totalScore := sc, submitted11 := True, playing11 := Some sel\<rparr>"
    from inv have "room_inv0 r" "inv_active r" by (simp_all add: room_inv_def)
    then have "room_inv0 (r\<lparr>teams := updTeam u ?f (teams r)\<rparr>)"
      "inv_active (r\<lparr>teams := updTeam u ?f (teams r)\<rparr>)"
      by (simp_all add: room_inv0_updTeam inv_active_updTeam isActive_def)
    then have "room_inv (r\<lparr>teams := updTeam u ?f (teams r)\<rparr>)"
      by (simp add: room_inv_def)
    then show "room_inv (updateRoomActivity now (r\<lparr>teams := updTeam u ?f (teams r)\<rparr>))"
      by simp
  qed
  with submitPlaying11_cases [of now u ids c vc r] inv show ?thesis
    by (auto simp: Let_def room_inv_calculateWinner)
qed

lemma room_inv_step:
  assumes inv: "room_inv r" and st: "step now e r = Room r'"
  shows "room_inv r'"
proof (cases e)
  case (JoinRoom u nm)
  with st inv show ?thesis by (auto simp: room_inv_joinRoom)
next
  case (RejoinGame u)
  with st inv show ?thesis by (auto simp: room_inv_rejoinGame)
next
  case (LeaveRoom u)
  with st inv show ?thesis by (auto intro: room_inv_leaveRoom)
next
  case (FinishBiddingForMe u)
  with st inv show ?thesis by (auto simp: room_inv_finishBiddingForMe)
next
  case (StartAuction u)
  with st inv show ?thesis by (auto simp: room_inv_startAuction)
next
  case (PlaceBid u a)
  with st inv show ?thesis
    by (auto simp: thrown_def split: option.splits intro: room_inv_placeBid)
next
  case (SkipForMe u)
  with st inv show ?thesis
    by (auto simp: thrown_def split: option.splits intro: room_inv_skipForMe)
next
  case (SubmitPlaying11 u ids c vc)
  with st inv show ?thesis by (auto simp: room_inv_submitPlaying11)
next
  case TimerTick
  with st inv show ?thesis
    by (auto simp: thrown_def split: option.splits intro: room_inv_timerTick)
next
  case NextPlayerFire
  with st inv show ?thesis by (auto simp: room_inv_nextPlayerFire)
next
  case CleanupSweep
  with st inv show ?thesis by (auto intro: room_inv_cleanupSweep)
next
  case Restart
  with st inv show ?thesis by (auto intro: room_inv_restart)
qed

lemma reachable_room_inv: "reachable r \<Longrightarrow> room_inv r"
  by (induction rule: reachable.induct) (auto intro: room_inv_created room_inv_step)

subsection \<open>Squads hold distinct items of the pool\<close>

lemma squads_from_refl: "squads_from r r"
  unfolding squads_from_def by blast

lemma squads_from_trans: "squads_from r x \<Longrightarrow> squads_from x y \<Longrightarrow> squads_from r y"
  unfolding squads_from_def by auto

lemma squads_from_same:
  assumes "teams y = teams x" "playerPool (auction y) = playerPool (auction x)"
    "soldUpTo x \<le> soldUpTo y"
  shows "squads_from x y"
  using assms unfolding squads_from_def squadsOf_def by auto

lemma squads_within_mono:
  assumes "squads_within n r" "n \<le> m"
  shows "squads_within m r"
proof -
  from assms(2) have "set (take n (playerPool (auction r))) \<subseteq> set (take m (playerPool (auction r)))"
    by (rule set_take_subset_set_take)
  with assms(1) show ?thesis unfolding squads_within_def by blast
qed

lemma inv_squads_from:
  assumes "inv_squads r" "squads_from r r'"
  shows "inv_squads r'"
proof -
  from assms(2) have pool: "playerPool (auction r') = playerPool (auction r)"
    and le: "soldUpTo r \<le> soldUpTo r'"
    and sq: "squadsOf r' \<subseteq> insert [] (squadsOf r)"
    unfolding squads_from_def by blast+
  show ?thesis unfolding inv_squads_def
  proof
    assume "distinct (map pid (playerPool (auction r')))"
    with assms(1) pool have "squads_within (soldUpTo r) r" by (simp add: inv_squads_def)
    then have w: "squads_within (soldUpTo r') r" using le by (rule squads_within_mono)
    show "squads_within (soldUpTo r') r'"
      unfolding squads_within_def
    proof
      fix s assume "s \<in> squadsOf r'"
      with sq have "s = [] \<or> s \<in> squadsOf r" by blast
      then show "distinct (map pid s) \<and>
        pid ` set s \<subseteq> pid ` set (take (soldUpTo r') (playerPool (auction r')))"
      proof
        assume "s = []" then show ?thesis by simp
      next
        assume "s \<in> squadsOf r"
        with w show ?thesis unfolding squads_within_def pool by blast
      qed
    qed
  qed
qed

lemma squads_from_emit: "squads_from r x \<Longrightarrow> squads_from r (emit e x)"
  by (erule squads_from_trans) (simp add: squads_from_same emit_def soldUpTo_def)

lemma squads_from_updateRoomActivity: "squads_from r x \<Longrightarrow> squads_from r (updateRoomActivity now x)"
  by (erule squads_from_trans) (simp add: squads_from_same updateRoomActivity_def soldUpTo_def)

lemma squads_from_startAuctionTimer: "squads_from r x \<Longrightarrow> squads_from r (startAuctionTimer x)"
  by (erule squads_from_trans) (simp add: squads_from_same startAuctionTimer_def soldUpTo_def)

lemma squads_from_emitResults: "squads_from r x \<Longrightarrow> squads_from r (emitResults x)"
  by (simp add: emitResults_def squads_from_emit)

lemma squads_from_checkEliminations: "squads_from r x \<Longrightarrow> squads_from r (checkEliminations x)"
proof (erule squads_from_trans)
  show "squads_from x (checkEliminations x)"
    unfolding squads_from_def checkEliminations_def soldUpTo_def squadsOf_def
    by (auto split: if_splits)
qed

lemma squads_from_endAuctionPhase: "squads_from r x \<Longrightarrow> squads_from r (endAuctionPhase now x)"
  by (erule squads_from_trans)
     (simp add: squads_from_same endAuctionPhase_def small_defs soldUpTo_def)

lemma squads_from_checkAuctionCompletion:
  "squads_from r x \<Longrightarrow> squads_from r (checkAuctionCompletion now x)"
  by (erule squads_from_trans)
     (simp add: squads_from_same checkAuctionCompletion_def endAuctionPhase_def small_defs
        soldUpTo_def squads_from_refl)

lemma squads_from_calculateWinner: "squads_from r x \<Longrightarrow> squads_from r (calculateWinner now x)"
  by (erule squads_from_trans)
     (simp add: squads_from_same calculateWinner_def Let_def small_defs soldUpTo_def)

lemma squads_from_startNextPlayer:
  "squads_from r x \<Longrightarrow> squads_from r (startNextPlayer now x)"
  by (erule squads_from_trans)
     (simp add: squads_from_same startNextPlayer_def endAuctionPhase_def Let_def small_defs
        soldUpTo_def squads_from_refl)

lemma squads_from_prepareNext: "squads_from r x \<Longrightarrow> squads_from r (prepareNext now x)"
proof (erule squads_from_trans)
  show "squads_from x (prepareNext now x)"
  proof (cases "phase (auction x) = AUCTION")
    case False
    then show ?thesis by (simp add: prepareNext_def squads_from_refl)
  next
    case True
    let ?x1 = "x\<lparr>auction := (auction x)\<lparr>currentPlayerIndex := currentPlayerIndex (auction x) + 1\<rparr>\<rparr>"
    have "squads_from x ?x1" using True by (simp add: squads_from_same soldUpTo_def)
    then have "squads_from x (checkEliminations ?x1)" by (rule squads_from_checkEliminations)
    then have "squads_from x (updateRoomActivity now (emit TeamsUpdated (checkEliminations ?x1)))"
      by (intro squads_from_updateRoomActivity squads_from_emit)
    then have "squads_from x
      ((updateRoomActivity now (emit TeamsUpdated (checkEliminations ?x1)))\<lparr>nextPlayerTimeout := True\<rparr>)"
      by (rule squads_from_trans) (simp add: squads_from_same soldUpTo_def)
    with True show ?thesis by (simp add: prepareNext_def Let_def)
  qed
qed

lemma squads_from_closed:
  "squads_from r x \<Longrightarrow> squads_from r (x\<lparr>auction := (auction x)\<lparr>biddingOpen := False\<rparr>\<rparr>)"
  by (erule squads_from_trans) (simp add: squads_from_same soldUpTo_def)

lemma squads_from_finishPlayerUnsold:
  "squads_from r x \<Longrightarrow> squads_from r (finishPlayerUnsold now x)"
  unfolding finishPlayerUnsold_def Let_def
  by (intro squads_from_prepareNext squads_from_emit squads_from_closed)

lemmas squads_from_intros = squads_from_emit squads_from_updateRoomActivity
  squads_from_startAuctionTimer squads_from_emitResults squads_from_checkEliminations
  squads_from_endAuctionPhase squads_from_checkAuctionCompletion squads_from_calculateWinner
  squads_from_startNextPlayer squads_from_prepareNext squads_from_closed
  squads_from_finishPlayerUnsold

lemma squads_from_updTeam:
  assumes "\<And>t. squad (f t) = squad t"
  shows "squads_from r x \<Longrightarrow> squads_from r (x\<lparr>teams := updTeam u f (teams x)\<rparr>)"
proof (erule squads_from_trans)
  show "squads_from x (x\<lparr>teams := updTeam u f (teams x)\<rparr>)"
    unfolding squads_from_def squadsOf_def updTeam_def soldUpTo_def
    by (auto simp: assms split: if_splits)
qed

lemma squads_from_delTeam:
  "squads_from r x \<Longrightarrow> squads_from r (x\<lparr>teams := delTeam u (teams x)\<rparr>)"
proof (erule squads_from_trans)
  show "squads_from x (x\<lparr>teams := delTeam u (teams x)\<rparr>)"
    unfolding squads_from_def squadsOf_def delTeam_def soldUpTo_def
    by auto
qed

lemma squads_from_newTeam:
  "squads_from r x \<Longrightarrow> squads_from r (x\<lparr>teams := teams x @ [(u, newTeam u nm p)]\<rparr>)"
proof (erule squads_from_trans)
  show "squads_from x (x\<lparr>teams := teams x @ [(u, newTeam u nm p)]\<rparr>)"
    unfolding squads_from_def squadsOf_def soldUpTo_def
    by auto
qed

lemma squads_from_joinRoom: "squads_from r (joinRoom now u nm r)"
  unfolding joinRoom_def Let_def
  by (auto intro!: squads_from_intros squads_from_newTeam squads_from_refl)

lemma squads_from_rejoinGame: "squads_from r (rejoinGame now u r)"
  unfolding rejoinGame_def Let_def
  by (auto intro!: squads_from_intros squads_from_refl split: option.splits)

lemma squads_from_hostId: "squads_from r x \<Longrightarrow> squads_from r (x\<lparr>hostId := k\<rparr>)"
  by (erule squads_from_trans) (simp add: squads_from_same soldUpTo_def)

lemma squads_from_leaveRoom: "leaveRoom now u r = Room r' \<Longrightarrow> squads_from r r'"
  unfolding leaveRoom_def Let_def
  by (auto intro!: squads_from_intros squads_from_delTeam squads_from_hostId squads_from_refl
        split: if_splits list.splits)

lemma squads_from_finishBiddingForMe: "squads_from r (finishBiddingForMe now u r)"
  unfolding finishBiddingForMe_def
  by (auto intro!: squads_from_intros squads_from_updTeam squads_from_refl split: option.splits)

lemma squads_from_placeBid: "placeBid now u a r = Some r' \<Longrightarrow> squads_from r r'"
proof -
  assume p: "placeBid now u a r = Some r'"
  have b: "squads_from r (r\<lparr>auction := (auction r)\<lparr>currentBid := c, currentBidderId := w,
                  skippedBy := []\<rparr>\<rparr>)" for c w
    by (simp add: squads_from_same soldUpTo_def)
  from placeBid_cases [of now u a r] p show ?thesis
    by (auto intro!: squads_from_intros squads_from_refl b)
qed

lemma squads_from_nextPlayerFire: "squads_from r (nextPlayerFire now r)"
proof -
  have "squads_from r (r\<lparr>nextPlayerTimeout := False\<rparr>)"
    by (simp add: squads_from_same soldUpTo_def)
  then show ?thesis
    unfolding nextPlayerFire_def Let_def
    by (auto intro!: squads_from_intros squads_from_refl)
qed

lemma squads_from_submitPlaying11: "squads_from r (submitPlaying11 now u ids c vc r)"
  using submitPlaying11_cases [of now u ids c vc r]
  by (auto simp: Let_def intro!: squads_from_intros squads_from_updTeam squads_from_refl)

lemma squads_from_restart: "restart now r = Room r' \<Longrightarrow> squads_from r r'"
  by (auto simp: restart_def Let_def loadRoom_def cleanRoom_def soldUpTo_def
        intro!: squads_from_same split: if_splits)

lemma squads_from_cleanupSweep: "cleanupSweep now r = Room r' \<Longrightarrow> squads_from r r'"
  by (auto simp: cleanupSweep_def squads_from_refl split: if_splits)

lemma inv_squads_within:
  assumes "distinct (map pid (playerPool (auction r))) \<longrightarrow> squads_within n r"
    and "squads_from r r'" and "n \<le> soldUpTo r'"
  shows "inv_squads r'"
proof -
  let ?x = "r\<lparr>auction := (auction r)\<lparr>currentPlayerIndex := n, biddingOpen := True\<rparr>\<rparr>"
  from assms(1) have "inv_squads ?x"
    by (simp add: inv_squads_def squads_within_def squadsOf_def soldUpTo_def)
  moreover from assms(2,3) have "squads_from ?x r'"
    by (simp add: squads_from_def squadsOf_def soldUpTo_def)
  ultimately show ?thesis by (rule inv_squads_from)
qed

lemma soldUpTo_after_close:
  "\<not> biddingOpen (auction x) \<Longrightarrow>
   soldUpTo (prepareNext now (checkAuctionCompletion now x)) = Suc (currentPlayerIndex (auction x))"
  by (simp add: prepareNext_def checkAuctionCompletion_def endAuctionPhase_def Let_def
        small_defs checkEliminations_def soldUpTo_def)

lemma pid_fresh:
  assumes "distinct (map pid xs)" "i < length xs"
  shows "pid (xs ! i) \<notin> pid ` set (take i xs)"
proof -
  from assms(2) have "xs = take i xs @ xs ! i # drop (Suc i) xs" by (rule id_take_nth_drop)
  then have "map pid xs = map pid (take i xs) @ pid (xs ! i) # map pid (drop (Suc i) xs)"
    by (metis list.simps(9) map_append)
  with assms(1) have "distinct (map pid (take i xs) @ pid (xs ! i) # map pid (drop (Suc i) xs))"
    by simp
  then show ?thesis by simp
qed

lemma squads_within_sale:
  assumes w: "squads_within (currentPlayerIndex (auction r)) r"
    and d: "distinct (map pid (playerPool (auction r)))"
    and p: "item_at (playerPool (auction r)) (currentPlayerIndex (auction r)) = Some p"
  shows "squads_within (Suc (currentPlayerIndex (auction r)))
     (r\<lparr>auction := (auction r)\<lparr>biddingOpen := False\<rparr>,
        teams := updTeam w (\<lambda>t. t\<lparr>purse := toFixed2 (purse t - b),
                   squad := squad t @ [p\<lparr>soldPrice := Some b\<rparr>]\<rparr>) (teams r)\<rparr>)"
proof -
  let ?i = "currentPlayerIndex (auction r)"
  let ?pool = "playerPool (auction r)"
  from p have i: "?i < length ?pool" and pi: "p = ?pool ! ?i"
    by (auto simp: item_at_def split: if_splits)
  from pid_fresh [OF d i] pi have fresh: "pid p \<notin> pid ` set (take ?i ?pool)" by simp
  from i have tk: "take (Suc ?i) ?pool = take ?i ?pool @ [?pool ! ?i]"
    by (rule take_Suc_conv_app_nth)
  have old: "distinct (map pid s) \<and> pid ` set s \<subseteq> pid ` set (take ?i ?pool)"
    if "s \<in> squadsOf r" for s
    using w that unfolding squads_within_def by blast
  show ?thesis unfolding squads_within_def
  proof
    fix s
    assume "s \<in> squadsOf (r\<lparr>auction := (auction r)\<lparr>biddingOpen := False\<rparr>,
        teams := updTeam w (\<lambda>t. t\<lparr>purse := toFixed2 (purse t - b),
                   squad := squad t @ [p\<lparr>soldPrice := Some b\<rparr>]\<rparr>) (teams r)\<rparr>)"
    then have "s \<in> squadsOf r \<or> (\<exists>s0 \<in> squadsOf r. s = s0 @ [p\<lparr>soldPrice := Some b\<rparr>])"
      unfolding squadsOf_def updTeam_def by (auto split: if_splits)
    then have "distinct (map pid s) \<and>
       pid ` set s \<subseteq> pid ` set (take ?i ?pool) \<union> {pid (?pool ! ?i)}"
    proof
      assume "s \<in> squadsOf r"
      from old [OF this] show ?thesis by blast
    next
      assume "\<exists>s0 \<in> squadsOf r. s = s0 @ [p\<lparr>soldPrice := Some b\<rparr>]"
      then obtain s0 where s0: "s0 \<in> squadsOf r" and s: "s = s0 @ [p\<lparr>soldPrice := Some b\<rparr>]"
        by blast
      from old [OF s0] fresh have "pid p \<notin> pid ` set s0" by blast
      with old [OF s0] show ?thesis unfolding s using pi by auto
    qed
    then show "distinct (map pid s) \<and> pid ` set s \<subseteq> pid ` set (take (Suc ?i)
       (playerPool (auction (r\<lparr>auction := (auction r)\<lparr>biddingOpen := False\<rparr>,
        teams := updTeam w (\<lambda>t. t\<lparr>purse := toFixed2 (purse t - b),
                   squad := squad t @ [p\<lparr>soldPrice := Some b\<rparr>]\<rparr>) (teams r)\<rparr>))))"
      by (simp add: tk)
  qed
qed

lemma inv_squads_finishBidding:
  assumes inv: "inv_squads r" and op: "biddingOpen (auction r)"
    and fb: "finishBidding now r = Some r'"
  shows "inv_squads r'"
proof -
  let ?r1 = "r\<lparr>auction := (auction r)\<lparr>biddingOpen := False\<rparr>\<rparr>"
  have c: "squads_from r ?r1" by (intro squads_from_closed squads_from_refl)
  have un: "inv_squads (finishPlayerUnsold now ?r1)"
    by (rule inv_squads_from [OF inv]) (intro squads_from_finishPlayerUnsold c)
  have nf: "inv_squads (prepareNext now (checkAuctionCompletion now (emit e ?r1)))" for e
    by (rule inv_squads_from [OF inv]) (intro squads_from_intros c)
  show ?thesis
  proof (cases "currentBidderId (auction r)")
    case None
    then show ?thesis using fb nf finishBidding_no_team [of r now] by auto
  next
    case (Some w)
    note w = Some
    show ?thesis
    proof (cases "map_of (teams r) w")
      case None
      then show ?thesis using w fb nf finishBidding_no_team [of r now] by auto
    next
      case (Some t)
      note t = Some
      show ?thesis
      proof (cases "currentBid (auction r) > purse t \<or> length (squad t) \<ge> MAX_SQUAD_SIZE")
        case True
        from finishBidding_cannot_pay [OF w t True, of now] fb un show ?thesis by simp
      next
        case False
        then have price: "\<not> currentBid (auction r) > purse t"
          and room: "length (squad t) < MAX_SQUAD_SIZE" by simp_all
        show ?thesis
        proof (cases "item_at (playerPool (auction r)) (currentPlayerIndex (auction r))")
          case None
          from finishBidding_no_item [OF w t price room None, of now] fb show ?thesis by simp
        next
          case (Some p)
          let ?r2 = "r\<lparr>auction := (auction r)\<lparr>biddingOpen := False\<rparr>,
                teams := updTeam w (\<lambda>t. t\<lparr>purse := toFixed2 (purse t - currentBid (auction r)),
                          squad := squad t @ [p\<lparr>soldPrice := Some (currentBid (auction r))\<rparr>]\<rparr>) (teams r)\<rparr>"
          have w2: "distinct (map pid (playerPool (auction ?r2))) \<longrightarrow>
              squads_within (Suc (currentPlayerIndex (auction r))) ?r2"
          proof
            assume "distinct (map pid (playerPool (auction ?r2)))"
            then have d: "distinct (map pid (playerPool (auction r)))" by simp
            with inv op have "squads_within (currentPlayerIndex (auction r)) r"
              by (simp add: inv_squads_def soldUpTo_def)
            from squads_within_sale [OF this d Some]
            show "squads_within (Suc (currentPlayerIndex (auction r))) ?r2" .
          qed
          have "inv_squads (prepareNext now (checkAuctionCompletion now (emit e
                  (checkEliminations ?r2))))" for e
          proof (rule inv_squads_within [OF w2])
            show "squads_from ?r2 (prepareNext now (checkAuctionCompletion now (emit e
                  (checkEliminations ?r2))))"
              by (intro squads_from_intros squads_from_refl)
            have "\<not> biddingOpen (auction (emit e (checkEliminations ?r2)))"
              "currentPlayerIndex (auction (emit e (checkEliminations ?r2))) =
                 currentPlayerIndex (auction r)"
              by (simp_all add: emit_def checkEliminations_def)
            with soldUpTo_after_close [of "emit e (checkEliminations ?r2)" now]
            show "Suc (currentPlayerIndex (auction r)) \<le>
              soldUpTo (prepareNext now (checkAuctionCompletion now (emit e
                  (checkEliminations ?r2))))"
              by simp
          qed
          with finishBidding_sold [OF w t price room Some, of now] fb show ?thesis by auto
        qed
      qed
    qed
  qed
qed

lemma inv_squads_skipForMe:
  assumes inv: "inv_squads r" and s: "skipForMe now u r = Some r'"
  shows "inv_squads r'"
proof (cases "biddingOpen (auction r)")
  case False
  with s inv show ?thesis by (simp add: skipForMe_def)
next
  case op: True
  show ?thesis
  proof (cases "map_of (teams r) u")
    case None
    with s inv op show ?thesis by (simp add: skipForMe_def)
  next
    case (Some t)
    show ?thesis
    proof (cases "isEliminated t \<or> isFinishedBidding t")
      case True
      with s inv op Some show ?thesis by (auto simp: skipForMe_def)
    next
      case False
      define r1 where "r1 = (if u \<in> set (skippedBy (auction r)) then r
                       else r\<lparr>auction := (auction r)\<lparr>skippedBy := skippedBy (auction r) @ [u]\<rparr>\<rparr>)"
      define r2 where "r2 = r1\<lparr>auction := (auction r1)\<lparr>timer := False\<rparr>\<rparr>"
      have f1: "squads_from r r1" by (simp add: r1_def squads_from_same soldUpTo_def squads_from_refl)
      have f2: "squads_from r r2" by (simp add: r2_def r1_def squads_from_same soldUpTo_def)
      note i1 = inv_squads_from [OF inv f1]
      note i2 = inv_squads_from [OF inv f2]
      have op2: "biddingOpen (auction r2)" using op by (simp add: r2_def r1_def)
      from s op Some False
      have "r' = r1 \<or> finishBidding now r2 = Some r' \<or> r' = finishPlayerUnsold now r2"
        unfolding skipForMe_def r2_def r1_def Let_def
        by (auto split: if_splits)
      with i1 inv_squads_finishBidding [OF i2 op2]
        inv_squads_from [OF i2 squads_from_finishPlayerUnsold [OF squads_from_refl]]
      show ?thesis by blast
    qed
  qed
qed

lemma inv_squads_timerTick:
  assumes inv: "inv_squads r" and ri: "room_inv r" and s: "timerTick now r = Some r'"
  shows "inv_squads r'"
proof (cases "timer (auction r)")
  case False
  with s inv show ?thesis by (simp add: timerTick_def)
next
  case tm: True
  with ri have op: "biddingOpen (auction r)" by (simp add: room_inv_def room_inv0_def inv_timer_def)
  define r2 where "r2 = emit (TimerUpdate (timeLeft (auction r) - 1))
      (r\<lparr>auction := (auction r)\<lparr>timeLeft := timeLeft (auction r) - 1\<rparr>\<rparr>)"
  define r3 where "r3 = r2\<lparr>auction := (auction r2)\<lparr>timer := False\<rparr>\<rparr>"
  have f2: "squads_from r r2" by (simp add: r2_def emit_def squads_from_same soldUpTo_def)
  have f3: "squads_from r r3" by (simp add: r3_def r2_def emit_def squads_from_same soldUpTo_def)
  note i2 = inv_squads_from [OF inv f2]
  note i3 = inv_squads_from [OF inv f3]
  have op3: "biddingOpen (auction r3)" using op by (simp add: r3_def r2_def emit_def)
  from s tm
  have "r' = r2 \<or> finishBidding now r3 = Some r' \<or> r' = finishPlayerUnsold now r3"
    unfolding timerTick_def r3_def r2_def Let_def
    by (auto simp: emit_def split: if_splits)
  with i2 inv_squads_finishBidding [OF i3 op3]
    inv_squads_from [OF i3 squads_from_finishPlayerUnsold [OF squads_from_refl]]
  show ?thesis by blast
qed

lemma inv_squads_startAuction:
  assumes inv: "inv_squads r" and ri: "room_inv r"
  shows "inv_squads (startAuction now u r)"
proof (cases "hostId r = u \<and> phase (auction r) = LOBBY")
  case False
  with inv show ?thesis by (auto simp: startAuction_def)
next
  case True
  with ri have e: "\<And>k t. (k, t) \<in> set (teams r) \<Longrightarrow> squad t = []"
    unfolding room_inv_def room_inv0_def inv_lobby_def by blast
  let ?x = "r\<lparr>auction := (auction r)\<lparr>phase := AUCTION\<rparr>\<rparr>"
  have "squads_within 0 ?x" unfolding squads_within_def squadsOf_def using e by auto
  then have "inv_squads ?x" unfolding inv_squads_def by (simp add: squads_within_mono)
  moreover have "squads_from ?x (startNextPlayer now (emit AuctionStartedSignal
      (updateRoomActivity now ?x)))"
    by (intro squads_from_intros squads_from_refl)
  ultimately have "inv_squads (startNextPlayer now (emit AuctionStartedSignal
      (updateRoomActivity now ?x)))"
    by (rule inv_squads_from)
  with True show ?thesis by (simp add: startAuction_def)
qed

lemma inv_squads_created: "inv_squads (createRoom now u nm req cat)"
  by (simp add: inv_squads_def squads_within_def squadsOf_def createRoom_def Let_def emit_def)

lemma inv_squads_step:
  assumes inv: "inv_squads r" and ri: "room_inv r" and st: "step now e r = Room r'"
  shows "inv_squads r'"
proof (cases e)
  case (JoinRoom u nm)
  with st inv_squads_from [OF inv squads_from_joinRoom] show ?thesis by auto
next
  case (RejoinGame u)
  with st inv_squads_from [OF inv squads_from_rejoinGame] show ?thesis by auto
next
  case (LeaveRoom u)
  with st inv show ?thesis by (auto intro: inv_squads_from squads_from_leaveRoom)
next
  case (FinishBiddingForMe u)
  with st inv_squads_from [OF inv squads_from_finishBiddingForMe] show ?thesis by auto
next
  case (StartAuction u)
  with st inv ri show ?thesis by (auto simp: inv_squads_startAuction)
next
  case (PlaceBid u a)
  with st inv show ?thesis
    by (auto simp: thrown_def split: option.splits intro: inv_squads_from squads_from_placeBid)
next
  case (SkipForMe u)
  with st inv show ?thesis
    by (auto simp: thrown_def split: option.splits intro: inv_squads_skipForMe)
next
  case (SubmitPlaying11 u ids c vc)
  with st inv_squads_from [OF inv squads_from_submitPlaying11] show ?thesis by auto
next
  case TimerTick
  with st inv ri show ?thesis
    by (auto simp: thrown_def split: option.splits intro: inv_squads_timerTick)
next
  case NextPlayerFire
  with st inv_squads_from [OF inv squads_from_nextPlayerFire] show ?thesis by auto
next
  case CleanupSweep
  with st inv show ?thesis by (auto intro: inv_squads_from squads_from_cleanupSweep)
next
  case Restart
  with st inv show ?thesis by (auto intro: inv_squads_from squads_from_restart)
qed

lemma reachable_inv_squads: "reachable r \<Longrightarrow> inv_squads r"
  by (induction rule: reachable.induct)
     (auto intro: inv_squads_created inv_squads_step reachable_room_inv)

lemma reachable_squad_distinct:
  assumes "reachable r" "distinct (map pid (playerPool (auction r)))" "map_of (teams r) u = Some t"
  shows "distinct (map pid (squad t))"
proof -
  from assms(3) have "(u, t) \<in> set (teams r)" by (rule map_of_SomeD)
  then have "squad t \<in> squadsOf r" unfolding squadsOf_def by force
  with reachable_inv_squads [OF assms(1)] assms(2) show ?thesis
    unfolding inv_squads_def squads_within_def by blast
qed


section \<open>Claims\<close>

lemma reachable_run: "reachable r \<Longrightarrow> run es r = Room r' \<Longrightarrow> reachable r'"
proof (induction es arbitrary: r)
  case Nil
  then show ?case by simp
next
  case (Cons a es)
  obtain now e where a: "a = (now, e)" by (cases a)
  from Cons.prems(2) a obtain r1 where s: "step now e r = Room r1" and r: "run es r1 = Room r'"
    by (auto split: outcome.splits)
  from reachable.stepped [OF Cons.prems(1) s] have "reachable r1" .
  from Cons.IH [OF this r] show ?case .
qed

lemma reachable_roomAfter: "reachable r \<Longrightarrow> reachable (roomAfter es r)"
  by (auto simp: roomAfter_def split: outcome.splits intro: reachable_run)

lemma reachable_demoRoom: "reachable demoRoom"
  unfolding demoRoom_def by (rule reachable.created)

text \<open>
  C4. In every reachable room every team's purse is non-negative, and so it is in the
  room that any further event leaves; a sale is part of the events \<open>TimerTick\<close> and
  \<open>SkipForMe\<close>, which run \<open>finishBidding\<close>.
\<close>

theorem purse_never_negative:
  assumes "reachable r"
  shows "(\<forall>u t. map_of (teams r) u = Some t \<longrightarrow> 0 \<le> purse t) \<and>
         (\<forall>now e r' u t. step now e r = Room r' \<longrightarrow> map_of (teams r') u = Some t \<longrightarrow>
            0 \<le> purse t)"
proof -
  have nn: "\<And>x u t. reachable x \<Longrightarrow> map_of (teams x) u = Some t \<Longrightarrow> 0 \<le> purse t"
  proof -
    fix x u t assume "reachable x" and t: "map_of (teams x) u = Some t"
    then have "inv_nonneg x" using reachable_room_inv [of x]
      by (simp add: room_inv_def room_inv0_def)
    with map_of_SomeD [OF t] show "0 \<le> purse t" unfolding inv_nonneg_def by blast
  qed
  from assms show ?thesis
    by (intro conjI allI impI) (blast intro: nn reachable.stepped)+
qed

theorem purse_never_negative_witness:
  "reachable (roomAfter [(1, StartAuction ''h''), (2, PlaceBid ''h'' (Fin (6 / 5)))] demoRoom) \<and>
   (\<exists>r' t. step 3 (SkipForMe ''h'')
              (roomAfter [(1, StartAuction ''h''), (2, PlaceBid ''h'' (Fin (6 / 5)))] demoRoom) = Room r' \<and>
           map_of (teams r') ''h'' = Some t \<and> purse t = 494 / 5 \<and> length (squad t) = 1 \<and>
           0 \<le> purse t)"
proof -
  let ?r = "roomAfter [(1, StartAuction ''h''), (2, PlaceBid ''h'' (Fin (6 / 5)))] demoRoom"
  have re: "reachable ?r" by (rule reachable_roomAfter [OF reachable_demoRoom])
  have "case step 3 (SkipForMe ''h'') ?r of
          Room r' \<Rightarrow> map_option (\<lambda>t. (purse t, length (squad t))) (map_of (teams r') ''h'') = Some (494 / 5, 1)
        | Destroyed \<Rightarrow> False | Crashed \<Rightarrow> False"
    by code_simp
  then obtain r' t where s: "step 3 (SkipForMe ''h'') ?r = Room r'"
    and t: "map_of (teams r') ''h'' = Some t" and p: "purse t = 494 / 5" "length (squad t) = 1"
    by (auto split: outcome.splits)
  from purse_never_negative [OF re] s t have "0 \<le> purse t" by blast
  with re s t p show ?thesis by blast
qed

text \<open>
  C10. The effective rating that scoring uses is never negative: whatever the
  adjustment for the value factor gives, \<open>getEffectiveRating\<close> returns its maximum with 0.
\<close>

theorem effective_rating_nonneg: "0 \<le> getEffectiveRating p"
  by (simp add: getEffectiveRating_def Let_def)

subsection \<open>Elimination\<close>



lemma teams_simple [simp]:
  "teams (emit e r) = teams r"
  "teams (updateRoomActivity now r) = teams r"
  "teams (startAuctionTimer r) = teams r"
  "teams (endAuctionPhase now r) = teams r"
  "teams (calculateWinner now r) = teams r"
  "teams (emitResults r) = teams r"
  by (simp_all add: small_defs endAuctionPhase_def calculateWinner_def emitResults_def Let_def)

lemma teams_checkAuctionCompletion [simp]: "teams (checkAuctionCompletion now r) = teams r"
  by (simp add: checkAuctionCompletion_def)

lemma teams_startNextPlayer [simp]: "teams (startNextPlayer now r) = teams r"
  by (simp add: startNextPlayer_def Let_def)

















subsection \<open>Closing a round\<close>

lemma retime_sel [simp]:
  "teams (retime k sk l s) = teams s"
  "playerPool (auction (retime k sk l s)) = playerPool (auction s)"
  "currentPlayerIndex (auction (retime k sk l s)) = currentPlayerIndex (auction s)"
  "currentBid (auction (retime k sk l s)) = currentBid (auction s)"
  "currentBidderId (auction (retime k sk l s)) = currentBidderId (auction s)"
  "phase (auction (retime k sk l s)) = phase (auction s)"
  by (simp_all add: retime_def)

lemma endAuctionPhase_retime:
  "endAuctionPhase now (retime k sk l s) = retime k sk l (endAuctionPhase now s)"
  by (simp add: endAuctionPhase_def retime_def small_defs)














lemma biddingOpen_prepareNext [simp]:
  "biddingOpen (auction (prepareNext now r)) = biddingOpen (auction r)"
  by (simp add: prepareNext_def Let_def small_defs)













subsection \<open>Bids\<close>

lemma toFixed2_cents: "toFixed2 (of_int n / 100) = of_int n / 100"
proof (cases "n < 0")
  case True
  have "\<lfloor>(of_int (- n) :: rat) + 1 / 2\<rfloor> = - n" by linarith
  with True show ?thesis by (simp add: toFixed2_def)
next
  case False
  have "\<lfloor>(of_int n :: rat) + 1 / 2\<rfloor> = n" by linarith
  with False show ?thesis by (simp add: toFixed2_def)
qed

text \<open>
  C8, as the code has it. A bid is accepted when \<open>place-bid\<close> changes the room. Then the
  current bid is the amount rounded to two decimals by \<open>toFixed(2)\<close> (the amount itself
  when it is a whole number of hundredths), the leader is the bidder, the skip set is
  empty, and the countdown is scheduled again with 10 seconds left.
\<close>

theorem accepted_bid_effects:
  assumes "placeBid now u amount r = Some r'" and "r' \<noteq> r"
  shows "\<exists>a. amount = Fin a \<and>
           currentBid (auction r') = toFixed2 a \<and>
           ((\<exists>n. a = of_int n / 100) \<longrightarrow> currentBid (auction r') = a) \<and>
           currentBidderId (auction r') = Some u \<and>
           skippedBy (auction r') = [] \<and>
           timeLeft (auction r') = 10 \<and> timer (auction r')"
proof -
  from placeBid_cases [of now u amount r] show ?thesis
  proof (elim disjE exE conjE)
    assume "placeBid now u amount r = None"
    with assms show ?thesis by simp
  next
    assume "placeBid now u amount r = Some r"
    with assms show ?thesis by simp
  next
    fix a t player
    assume a: "amount = Fin a"
      and eq: "placeBid now u amount r =
        Some (startAuctionTimer (emit (BidUpdated (toFixed2 a) u (tname t))
          (updateRoomActivity now
            (r\<lparr>auction := (auction r)\<lparr>currentBid := toFixed2 a, currentBidderId := Some u,
                  skippedBy := []\<rparr>\<rparr>))))"
    from assms(1) eq
    have r': "r' = startAuctionTimer (emit (BidUpdated (toFixed2 a) u (tname t))
          (updateRoomActivity now
            (r\<lparr>auction := (auction r)\<lparr>currentBid := toFixed2 a, currentBidderId := Some u,
                  skippedBy := []\<rparr>\<rparr>)))"
      by simp
    have "currentBid (auction r') = toFixed2 a" "currentBidderId (auction r') = Some u"
      "skippedBy (auction r') = []" "timeLeft (auction r') = 10" "timer (auction r')"
      unfolding r' by (simp_all add: small_defs)
    moreover have "(\<exists>n. a = of_int n / 100) \<longrightarrow> toFixed2 a = a"
      by (metis toFixed2_cents)
    ultimately show ?thesis using a by metis
  qed
qed

theorem accepted_bid_effects_witness:
  "\<exists>r'. placeBid 2 ''h'' (Fin (57 / 125)) (roomAfter [(1, StartAuction ''h'')] demoRoom) = Some r' \<and>
        r' \<noteq> roomAfter [(1, StartAuction ''h'')] demoRoom \<and>
        currentBid (auction r') = 23 / 50 \<and> currentBidderId (auction r') = Some ''h'' \<and>
        skippedBy (auction r') = [] \<and> timeLeft (auction r') = 10 \<and> timer (auction r')"
proof -
  let ?r = "roomAfter [(1, StartAuction ''h'')] demoRoom"
  have "case placeBid 2 ''h'' (Fin (57 / 125)) ?r of
          None \<Rightarrow> False
        | Some r' \<Rightarrow> currentBidderId (auction r') \<noteq> currentBidderId (auction ?r)"
    by code_simp
  then obtain r' where p: "placeBid 2 ''h'' (Fin (57 / 125)) ?r = Some r'" and ne: "r' \<noteq> ?r"
    by (auto split: option.splits)
  have tf: "toFixed2 (57 / 125) = 23 / 50" by code_simp
  from accepted_bid_effects [OF p ne]
  obtain a where a: "Fin (57 / 125) = Fin a" and c: "currentBid (auction r') = toFixed2 a"
    and o: "currentBidderId (auction r') = Some ''h''" "skippedBy (auction r') = []"
      "timeLeft (auction r') = 10" "timer (auction r')"
    by blast
  from a c have "currentBid (auction r') = toFixed2 (57 / 125)" by (metis jsnum.inject)
  then have "currentBid (auction r') = 23 / 50" by (simp only: tf)
  with p ne o show ?thesis by blast
qed

text \<open>The claim C8 as it is written fails: a bid of 0.456 on an item at 0.2 is accepted and
  the current bid becomes 0.46.\<close>

theorem bid_amount_is_rounded:
  "(case placeBid 2 ''h'' (Fin (57 / 125)) (roomAfter [(1, StartAuction ''h'')] demoRoom) of
      None \<Rightarrow> False
    | Some r' \<Rightarrow> currentBidderId (auction r') = Some ''h'' \<and> currentBid (auction r') = 23 / 50 \<and>
                 currentBid (auction r') \<noteq> 57 / 125)"
  by code_simp

text \<open>
  C1. The guards of \<open>place-bid\<close> are those of the claim (lemma \<open>placeBid_cases\<close>: the
  handler throws, leaves the room as it is, or all of them hold). The bounds on the new
  current bid fail, because the amount is rounded after it has been checked: in a room
  created with a purse of 100.006, a bid of 100.006 on the first item is accepted and
  the current bid becomes 100.01, more than the purse of the bidder.
\<close>

theorem bid_rounded_above_purse:
  "(case placeBid 2 ''h'' (Fin (50003 / 500)) (roomAfter [(1, StartAuction ''h'')] oddPurseRoom) of
      None \<Rightarrow> False
    | Some r' \<Rightarrow>
        currentBidderId (auction r') = Some ''h'' \<and> currentBid (auction r') = 10001 / 100 \<and>
        map_option purse (map_of (teams r') ''h'') = Some (50003 / 500) \<and>
        (50003 / 500 :: rat) < 10001 / 100)"
  by code_simp

subsection \<open>Lineups\<close>


lemma find_pid: "find (\<lambda>p. pid p = c) xs = Some x \<Longrightarrow> pid x = c \<and> x \<in> set xs"
  by (auto simp: find_Some_iff)

text \<open>What an accepted submission is: the team, the selected players, the captain and the
  vice-captain found among them, and the room the handler leaves.\<close>

lemma submitPlaying11_accepted:
  assumes "submitPlaying11 now u ids c vc r \<noteq> r"
  shows "\<exists>t captain viceCaptain.
           map_of (teams r) u = Some t \<and>
           length ids = min PLAYING_11_SIZE (length (squad t)) \<and>
           length (filter (\<lambda>p. pid p \<in> set ids) (squad t)) = length ids \<and>
           length (filter isOverseas (filter (\<lambda>p. pid p \<in> set ids) (squad t))) \<le> MAX_OVERSEAS_P11 \<and>
           find (\<lambda>p. pid p = c) (filter (\<lambda>p. pid p \<in> set ids) (squad t)) = Some captain \<and>
           find (\<lambda>p. pid p = vc) (filter (\<lambda>p. pid p \<in> set ids) (squad t)) = Some viceCaptain \<and>
           c \<noteq> vc \<and>
           teams (submitPlaying11 now u ids c vc r) =
             updTeam u (\<lambda>t'. t'\<lparr>totalScore :=
                 of_int (Math_round (addOthers (filter (\<lambda>p. pid p \<in> set ids) (squad t)) c vc
                    (of_int (getEffectiveRating captain) * (1 / 10) +
                     of_int (getEffectiveRating viceCaptain) * (1 / 10))
                    (0 + of_int (getEffectiveRating captain) * 2 +
                     of_int (getEffectiveRating viceCaptain) * (3 / 2)) * 100)) / 100,
                 submitted11 := True,
                 playing11 := Some (filter (\<lambda>p. pid p \<in> set ids) (squad t))\<rparr>) (teams r)"
proof (cases "map_of (teams r) u")
  case None
  with assms show ?thesis by (simp add: submitPlaying11_def)
next
  case (Some t)
  let ?sel = "filter (\<lambda>p. pid p \<in> set ids) (squad t)"
  from assms Some have l1: "length ids = min PLAYING_11_SIZE (length (squad t))"
    by (auto simp: submitPlaying11_def Let_def split: if_splits)
  from assms Some l1 have l2: "length ?sel = length ids"
    by (auto simp: submitPlaying11_def Let_def split: if_splits)
  from assms Some l1 l2 have l3: "length (filter isOverseas ?sel) \<le> MAX_OVERSEAS_P11"
    by (auto simp: submitPlaying11_def Let_def split: if_splits)
  from assms Some l1 l2 l3 obtain captain viceCaptain
    where cv: "find (\<lambda>p. pid p = c) ?sel = Some captain" "find (\<lambda>p. pid p = vc) ?sel = Some viceCaptain"
    by (cases "find (\<lambda>p. pid p = c) ?sel"; cases "find (\<lambda>p. pid p = vc) ?sel")
       (auto simp: submitPlaying11_def Let_def)
  from assms Some l1 l2 l3 cv have ne: "c \<noteq> vc"
    by (auto simp: submitPlaying11_def Let_def)
  from Some l1 l2 l3 cv ne
  have "teams (submitPlaying11 now u ids c vc r) =
             updTeam u (\<lambda>t'. t'\<lparr>totalScore :=
                 of_int (Math_round (addOthers ?sel c vc
                    (of_int (getEffectiveRating captain) * (1 / 10) +
                     of_int (getEffectiveRating viceCaptain) * (1 / 10))
                    (0 + of_int (getEffectiveRating captain) * 2 +
                     of_int (getEffectiveRating viceCaptain) * (3 / 2)) * 100)) / 100,
                 submitted11 := True,
                 playing11 := Some ?sel\<rparr>) (teams r)"
    by (simp add: submitPlaying11_def Let_def)
  with Some l1 l2 l3 cv ne show ?thesis by blast
qed

lemma selected_ids_in_squad:
  assumes d: "distinct (map pid sq)"
    and l: "length (filter (\<lambda>p. pid p \<in> set ids) sq) = length ids"
  shows "set ids \<subseteq> pid ` set sq"
proof -
  let ?sel = "filter (\<lambda>p. pid p \<in> set ids) sq"
  have ds: "distinct (map pid ?sel)" using d by (rule distinct_map_filter)
  have sub: "set (map pid ?sel) \<subseteq> set ids" by auto
  have "card (set (map pid ?sel)) = length ids"
    using distinct_card [OF ds] l by simp
  moreover have "card (set ids) \<le> length ids" by (rule card_length)
  ultimately have "card (set ids) \<le> card (set (map pid ?sel))" by simp
  with sub have "set (map pid ?sel) = set ids"
    by (intro card_seteq) simp_all
  then show ?thesis by auto
qed

text \<open>
  C5, as the code has it. \<open>submit-playing-11\<close> leaves the room as it is (so the team too)
  unless the team exists, the number of ids sent is the smaller of 11 and the squad
  size, every id sent is the id of a squad member (in a reachable room whose pool has
  pairwise distinct ids, so that the squads have too), the captain and the vice-captain
  are different and both among the ids sent and in the squad, and at most 4 of the
  selected squad members are overseas players. Whether the team has submitted before is
  not looked at.
\<close>

theorem lineup_rejected_unless:
  assumes "submitPlaying11 now u ids c vc r \<noteq> r"
  shows "\<exists>t. map_of (teams r) u = Some t \<and>
           length ids = min 11 (length (squad t)) \<and>
           (reachable r \<and> distinct (map pid (playerPool (auction r))) \<longrightarrow>
              set ids \<subseteq> pid ` set (squad t)) \<and>
           c \<noteq> vc \<and> c \<in> set ids \<and> vc \<in> set ids \<and>
           c \<in> pid ` set (squad t) \<and> vc \<in> pid ` set (squad t) \<and>
           length (filter (\<lambda>p. country p = ''Overseas'')
                    (filter (\<lambda>p. pid p \<in> set ids) (squad t))) \<le> 4"
proof -
  from submitPlaying11_accepted [OF assms]
  obtain t captain viceCaptain where t: "map_of (teams r) u = Some t"
    and l1: "length ids = min PLAYING_11_SIZE (length (squad t))"
    and l2: "length (filter (\<lambda>p. pid p \<in> set ids) (squad t)) = length ids"
    and l3: "length (filter isOverseas (filter (\<lambda>p. pid p \<in> set ids) (squad t))) \<le> MAX_OVERSEAS_P11"
    and c: "find (\<lambda>p. pid p = c) (filter (\<lambda>p. pid p \<in> set ids) (squad t)) = Some captain"
    and v: "find (\<lambda>p. pid p = vc) (filter (\<lambda>p. pid p \<in> set ids) (squad t)) = Some viceCaptain"
    and ne: "c \<noteq> vc"
    by blast
  from find_pid [OF c] have c': "c \<in> set ids" "c \<in> pid ` set (squad t)" by auto
  from find_pid [OF v] have v': "vc \<in> set ids" "vc \<in> pid ` set (squad t)" by auto
  have ov: "isOverseas = (\<lambda>p. country p = ''Overseas'')" by (simp add: isOverseas_def fun_eq_iff)
  from l1 have l1': "length ids = min 11 (length (squad t))" by (simp add: PLAYING_11_SIZE_def)
  from l3 have l3': "length (filter (\<lambda>p. country p = ''Overseas'')
                    (filter (\<lambda>p. pid p \<in> set ids) (squad t))) \<le> 4"
    unfolding ov by (simp add: MAX_OVERSEAS_P11_def)
  have "reachable r \<and> distinct (map pid (playerPool (auction r))) \<longrightarrow>
      set ids \<subseteq> pid ` set (squad t)"
  proof
    assume "reachable r \<and> distinct (map pid (playerPool (auction r)))"
    then have "distinct (map pid (squad t))" using t by (blast intro: reachable_squad_distinct)
    from selected_ids_in_squad [OF this l2] show "set ids \<subseteq> pid ` set (squad t)" .
  qed
  with t l1' ne c' v' l3' show ?thesis by blast
qed

theorem lineup_rejected_unless_witness:
  "submitPlaying11 11 ''h'' [''p1'', ''p2'', ''p3''] ''p1'' ''p2'' (roomAfter buyThree demoRoom) \<noteq>
     roomAfter buyThree demoRoom \<and>
   reachable (roomAfter buyThree demoRoom) \<and>
   distinct (map pid (playerPool (auction (roomAfter buyThree demoRoom)))) \<and>
   (\<exists>t. map_of (teams (roomAfter buyThree demoRoom)) ''h'' = Some t \<and>
        length (squad t) = 3 \<and>
        length [''p1'', ''p2'', ''p3''] = min 11 (length (squad t)) \<and>
        set [''p1'', ''p2'', ''p3''] \<subseteq> pid ` set (squad t) \<and>
        ''p1'' \<in> pid ` set (squad t) \<and> ''p2'' \<in> pid ` set (squad t) \<and>
        length (filter (\<lambda>p. country p = ''Overseas'')
                 (filter (\<lambda>p. pid p \<in> set [''p1'', ''p2'', ''p3'']) (squad t))) \<le> 4)"
proof -
  let ?r = "roomAfter buyThree demoRoom"
  let ?ids = "[''p1'', ''p2'', ''p3'']"
  have "phase (auction (submitPlaying11 11 ''h'' ?ids ''p1'' ''p2'' ?r)) \<noteq> phase (auction ?r)"
    by code_simp
  then have ne: "submitPlaying11 11 ''h'' ?ids ''p1'' ''p2'' ?r \<noteq> ?r" by auto
  have "map_option (\<lambda>t. length (squad t)) (map_of (teams ?r) ''h'') = Some 3" by code_simp
  then obtain t0 where t0: "map_of (teams ?r) ''h'' = Some t0" "length (squad t0) = 3" by auto
  have re: "reachable ?r" by (rule reachable_roomAfter [OF reachable_demoRoom])
  have d: "distinct (map pid (playerPool (auction ?r)))" by code_simp
  from lineup_rejected_unless [OF ne] re d
  obtain t where t: "map_of (teams ?r) ''h'' = Some t"
    and l: "length ?ids = min 11 (length (squad t))"
    and s: "set ?ids \<subseteq> pid ` set (squad t)"
    and c: "''p1'' \<in> pid ` set (squad t)" "''p2'' \<in> pid ` set (squad t)"
    and o: "length (filter (\<lambda>p. country p = ''Overseas'')
                 (filter (\<lambda>p. pid p \<in> set ?ids) (squad t))) \<le> 4"
    by blast
  from t t0 have "length (squad t) = 3" by simp
  with ne re d t l s c o show ?thesis by blast
qed

text \<open>The claim C5 as it is written fails: a team that has submitted its lineup submits
  again, with captain and vice-captain exchanged, and the submission is accepted: the
  stored score goes from 410.5 to 405.5.\<close>

theorem resubmission_accepted:
  "map_option (\<lambda>t. (submitted11 t, totalScore t))
     (map_of (teams (roomAfter (buyThree @ [(11, firstLineup)]) demoRoom)) ''h'') =
     Some (True, 821 / 2) \<and>
   map_option (\<lambda>t. (submitted11 t, totalScore t))
     (map_of (teams (submitPlaying11 12 ''h'' [''p1'', ''p2'', ''p3''] ''p2'' ''p1''
        (roomAfter (buyThree @ [(11, firstLineup)]) demoRoom))) ''h'') =
     Some (True, 811 / 2)"
  by code_simp



subsection \<open>Phases\<close>

lemma forward_no_result:
  "phase (auction r') = phase (auction r) \<or>
   (phase (auction r) = AUCTION \<and> phase (auction r') = SELECTION) \<or>
   (phase (auction r) = LOBBY \<and> (phase (auction r') = AUCTION \<or> phase (auction r') = SELECTION)) \<Longrightarrow>
   forward r r'"
  by (auto simp: forward_def)

lemma phase_simple [simp]:
  "phase (auction (emit e r)) = phase (auction r)"
  "phase (auction (updateRoomActivity now r)) = phase (auction r)"
  "phase (auction (startAuctionTimer r)) = phase (auction r)"
  "phase (auction (checkEliminations r)) = phase (auction r)"
  "phase (auction (emitResults r)) = phase (auction r)"
  "phase (auction (endAuctionPhase now r)) = SELECTION"
  "phase (auction (calculateWinner now r)) = RESULT"
  "phase (auction (prepareNext now r)) = phase (auction r)"
  by (simp_all add: small_defs emitResults_def endAuctionPhase_def calculateWinner_def
        prepareNext_def Let_def)

lemma phase_checkAuctionCompletion:
  "phase (auction (checkAuctionCompletion now r)) =
     (if phase (auction r) = AUCTION \<and> activeBidders r = [] then SELECTION else phase (auction r))"
  by (simp add: checkAuctionCompletion_def)

lemma phase_startNextPlayer:
  "phase (auction (startNextPlayer now r)) =
     (if phase (auction r) = AUCTION \<and>
         length (playerPool (auction r)) \<le> currentPlayerIndex (auction r)
      then SELECTION else phase (auction r))"
  by (simp add: startNextPlayer_def Let_def)

lemma phase_finishPlayerUnsold [simp]:
  "phase (auction (finishPlayerUnsold now r)) = phase (auction r)"
  by (simp add: finishPlayerUnsold_def Let_def)

lemma phase_finishBidding:
  assumes "finishBidding now r = Some r'"
  shows "phase (auction r') = phase (auction r) \<or>
         (phase (auction r) = AUCTION \<and> phase (auction r') = SELECTION)"
proof (cases "(case currentBidderId (auction r) of None \<Rightarrow> None | Some w \<Rightarrow> map_of (teams r) w)")
  case None
  from finishBidding_no_team [OF None, of now] assms show ?thesis
    by (auto simp: phase_checkAuctionCompletion split: if_splits)
next
  case (Some t)
  then obtain w where w: "currentBidderId (auction r) = Some w" and t: "map_of (teams r) w = Some t"
    by (auto split: option.splits)
  show ?thesis
  proof (cases "currentBid (auction r) > purse t \<or> length (squad t) \<ge> MAX_SQUAD_SIZE")
    case True
    from finishBidding_cannot_pay [OF w t True, of now] assms show ?thesis by auto
  next
    case False
    then have price: "\<not> currentBid (auction r) > purse t"
      and room: "length (squad t) < MAX_SQUAD_SIZE" by simp_all
    show ?thesis
    proof (cases "item_at (playerPool (auction r)) (currentPlayerIndex (auction r))")
      case None
      from finishBidding_no_item [OF w t price room None, of now] assms show ?thesis by simp
    next
      case (Some p)
      from finishBidding_sold [OF w t price room Some, of now] assms show ?thesis
        by (auto simp: phase_checkAuctionCompletion split: if_splits)
    qed
  qed
qed

lemma forward_skipForMe:
  assumes s: "skipForMe now v r = Some r'"
  shows "forward r r'"
proof -
  define r1 where "r1 = (if v \<in> set (skippedBy (auction r)) then r
                   else r\<lparr>auction := (auction r)\<lparr>skippedBy := skippedBy (auction r) @ [v]\<rparr>\<rparr>)"
  define r2 where "r2 = r1\<lparr>auction := (auction r1)\<lparr>timer := False\<rparr>\<rparr>"
  have a: "phase (auction r1) = phase (auction r)" "phase (auction r2) = phase (auction r)"
    by (simp_all add: r1_def r2_def)
  from s have "r' = r \<or> r' = r1 \<or> finishBidding now r2 = Some r' \<or> r' = finishPlayerUnsold now r2"
    unfolding skipForMe_def r2_def r1_def Let_def
    by (auto split: if_splits option.splits)
  with a phase_finishBidding [of now r2 r'] show ?thesis
    by (intro forward_no_result) auto
qed

lemma forward_timerTick:
  assumes s: "timerTick now r = Some r'"
  shows "forward r r'"
proof -
  define r2 where "r2 = emit (TimerUpdate (timeLeft (auction r) - 1))
      (r\<lparr>auction := (auction r)\<lparr>timeLeft := timeLeft (auction r) - 1\<rparr>\<rparr>)"
  define r3 where "r3 = r2\<lparr>auction := (auction r2)\<lparr>timer := False\<rparr>\<rparr>"
  have a: "phase (auction r2) = phase (auction r)" "phase (auction r3) = phase (auction r)"
    by (simp_all add: r2_def r3_def)
  from s have "r' = r \<or> r' = r2 \<or> finishBidding now r3 = Some r' \<or> r' = finishPlayerUnsold now r3"
    unfolding timerTick_def r3_def r2_def Let_def
    by (auto simp: emit_def split: if_splits)
  with a phase_finishBidding [of now r3 r'] show ?thesis
    by (intro forward_no_result) auto
qed

lemma forward_leaveRoom:
  assumes "leaveRoom now v r = Room r'"
  shows "forward r r'"
proof -
  from assms obtain x where "r' = checkAuctionCompletion now x" "phase (auction x) = phase (auction r)"
    by (auto simp: leaveRoom_def Let_def split: if_splits list.splits)
  then show ?thesis
    by (intro forward_no_result) (auto simp: phase_checkAuctionCompletion)
qed

lemma forward_submitPlaying11: "forward r (submitPlaying11 now v ids c vc r)"
proof -
  from submitPlaying11_cases [of now v ids c vc r] show ?thesis
  proof (elim disjE exE)
    assume "submitPlaying11 now v ids c vc r = r"
    then show ?thesis by (simp add: forward_def)
  next
    fix sc sel
    define r2 where "r2 = updateRoomActivity now (r\<lparr>teams := updTeam v
                 (\<lambda>t. t\<lparr>totalScore := sc, submitted11 := True, playing11 := Some sel\<rparr>) (teams r)\<rparr>)"
    assume "submitPlaying11 now v ids c vc r =
      (let r2 = updateRoomActivity now (r\<lparr>teams := updTeam v
                 (\<lambda>t. t\<lparr>totalScore := sc, submitted11 := True, playing11 := Some sel\<rparr>) (teams r)\<rparr>)
       in if list_all submitted11 (filter (\<lambda>t. \<not> isEliminated t) (map snd (teams r2)))
          then calculateWinner now r2 else emit TeamsUpdated r2)"
    then have eq: "submitPlaying11 now v ids c vc r =
       (if list_all submitted11 (filter (\<lambda>t. \<not> isEliminated t) (map snd (teams r2)))
          then calculateWinner now r2 else emit TeamsUpdated r2)"
      by (simp only: Let_def r2_def)
    have ph: "phase (auction r2) = phase (auction r)" by (simp add: r2_def)
    show ?thesis
    proof (cases "list_all submitted11 (filter (\<lambda>t. \<not> isEliminated t) (map snd (teams r2)))")
      case True
      with eq have "submitPlaying11 now v ids c vc r = calculateWinner now r2" by simp
      with True show ?thesis by (cases "phase (auction r)") (simp_all add: forward_def)
    next
      case False
      with eq have "submitPlaying11 now v ids c vc r = emit TeamsUpdated r2" by simp
      with ph show ?thesis by (intro forward_no_result) simp
    qed
  qed
qed

lemma phase_joinRoom: "phase (auction (joinRoom now v nm r)) = phase (auction r)"
proof -
  define r1 where "r1 = (if map_of (teams r) v = None
                then r\<lparr>teams := teams r @ [(v, newTeam v nm (startingPurse r))]\<rparr> else r)"
  define r3 where "r3 = (if phase (auction (updateRoomActivity now r1)) = AUCTION \<and>
                    biddingOpen (auction (updateRoomActivity now r1)) then updateRoomActivity now r1
                else if phase (auction (updateRoomActivity now r1)) = SELECTION then updateRoomActivity now r1
                else if phase (auction (updateRoomActivity now r1)) = RESULT
                  then emitResults (updateRoomActivity now r1)
                else updateRoomActivity now r1)"
  have j: "joinRoom now v nm r = emit TeamsUpdated (checkEliminations r3)"
    by (simp only: joinRoom_def Let_def r3_def r1_def)
  have "phase (auction r1) = phase (auction r)" by (simp add: r1_def)
  moreover have "phase (auction r3) = phase (auction r1)" by (simp add: r3_def)
  ultimately show ?thesis unfolding j by simp
qed

lemma phase_rejoinGame: "phase (auction (rejoinGame now v r)) = phase (auction r)"
  by (cases "map_of (teams r) v") (simp_all add: rejoinGame_def Let_def)

lemma phase_finishBiddingForMe:
  "phase (auction (finishBiddingForMe now v r)) = phase (auction r) \<or>
   (phase (auction r) = AUCTION \<and> phase (auction (finishBiddingForMe now v r)) = SELECTION)"
  by (cases "map_of (teams r) v")
     (simp_all add: finishBiddingForMe_def phase_checkAuctionCompletion)

lemma phase_startAuction:
  "phase (auction (startAuction now v r)) = phase (auction r) \<or>
   (phase (auction r) = LOBBY \<and>
     (phase (auction (startAuction now v r)) = AUCTION \<or>
      phase (auction (startAuction now v r)) = SELECTION))"
  by (simp add: startAuction_def phase_startNextPlayer)

lemma phase_nextPlayerFire:
  "phase (auction (nextPlayerFire now r)) = phase (auction r) \<or>
   (phase (auction r) = AUCTION \<and> phase (auction (nextPlayerFire now r)) = SELECTION)"
  by (simp add: nextPlayerFire_def Let_def phase_startNextPlayer)

lemma phase_placeBid: "placeBid now v a r = Some r' \<Longrightarrow> phase (auction r') = phase (auction r)"
  using placeBid_cases [of now v a r] by auto

text \<open>No event moves a room to an earlier phase, and an event moves a room into RESULT only
  if all its teams that are not eliminated have then submitted.\<close>

lemma step_forward:
  assumes st: "step now e r = Room r'"
  shows "forward r r'"
proof (cases e)
  case (JoinRoom v nm)
  with st have "r' = joinRoom now v nm r" by simp
  then show ?thesis by (intro forward_no_result) (simp add: phase_joinRoom)
next
  case (RejoinGame v)
  with st have "r' = rejoinGame now v r" by simp
  then show ?thesis by (intro forward_no_result) (simp add: phase_rejoinGame)
next
  case (LeaveRoom v)
  with st show ?thesis by (auto intro: forward_leaveRoom)
next
  case (FinishBiddingForMe v)
  with st have "r' = finishBiddingForMe now v r" by simp
  with phase_finishBiddingForMe [of now v r] show ?thesis by (intro forward_no_result) auto
next
  case (StartAuction v)
  with st have "r' = startAuction now v r" by simp
  with phase_startAuction [of now v r] show ?thesis by (intro forward_no_result) auto
next
  case (PlaceBid v a)
  with st have "placeBid now v a r = Some r'" by (auto simp: thrown_def split: option.splits)
  from phase_placeBid [OF this] show ?thesis by (intro forward_no_result) simp
next
  case (SkipForMe v)
  with st show ?thesis by (auto simp: thrown_def split: option.splits intro: forward_skipForMe)
next
  case (SubmitPlaying11 v ids c vc)
  with st show ?thesis by (auto simp: forward_submitPlaying11)
next
  case TimerTick
  with st show ?thesis by (auto simp: thrown_def split: option.splits intro: forward_timerTick)
next
  case NextPlayerFire
  with st have "r' = nextPlayerFire now r" by simp
  with phase_nextPlayerFire [of now r] show ?thesis by (intro forward_no_result) auto
next
  case CleanupSweep
  with st have "r' = r" by (auto simp: cleanupSweep_def split: if_splits)
  then show ?thesis by (intro forward_no_result) simp
next
  case Restart
  with st have "r' = loadRoom (cleanRoom r)" by (auto simp: restart_def Let_def split: if_splits)
  then show ?thesis by (intro forward_no_result) (simp add: loadRoom_def cleanRoom_def)
qed

text \<open>
  C7. The phase never moves backwards (lemma \<open>step_forward\<close>), but \<open>submit-playing-11\<close>
  does not look at the phase: in the middle of the auction, with two players bought, the
  only team submits a lineup and the room goes from AUCTION straight to RESULT.
\<close>

theorem result_entered_from_auction:
  "(case run buyTwo demoRoom of
      Room r \<Rightarrow>
        phase (auction r) = AUCTION \<and>
        (case step 7 (SubmitPlaying11 ''h'' [''p1'', ''p2''] ''p1'' ''p2'') r of
           Room r' \<Rightarrow> phase (auction r') = RESULT
         | Destroyed \<Rightarrow> False | Crashed \<Rightarrow> False)
    | Destroyed \<Rightarrow> False | Crashed \<Rightarrow> False)"
  by code_simp

subsection \<open>Persistence\<close>

lemma cleanRoom_without_handles:
  "cleanRoom (r\<lparr>auction := (auction r)\<lparr>timer := b\<rparr>, nextPlayerTimeout := n\<rparr>) = cleanRoom r"
  by (simp add: cleanRoom_def)

lemma newSet_distinct: "distinct xs \<Longrightarrow> newSet xs = xs"
  by (simp add: newSet_def distinct_remdups_id)

lemma loadRoom_cleanRoom:
  "distinct (skippedBy (auction r)) \<Longrightarrow>
   loadRoom (cleanRoom r) =
     r\<lparr>auction := (auction r)\<lparr>timer := False\<rparr>, nextPlayerTimeout := False, emitted := []\<rparr>"
  by (simp add: loadRoom_def cleanRoom_def newSet_distinct)

lemma restart_no_countdown: "restart now r = Room r' \<Longrightarrow> \<not> timer (auction r')"
  by (auto simp: restart_def Let_def loadRoom_def split: if_splits)

text \<open>
  C9. The snapshot has the fields of the claim and neither handle
  (\<open>cleanRoom_without_handles\<close>, \<open>loadRoom_cleanRoom\<close>). But \<open>loadGameData\<close> only sets the
  handles to \<open>null\<close>: a room saved in the middle of a round comes back in phase AUCTION
  with bidding open and no countdown scheduled, so that no tick ever closes the round.
\<close>

theorem countdown_not_restarted_on_load:
  "(case run [(1, StartAuction ''h''), (2, Restart)] demoRoom of
      Room r \<Rightarrow>
        phase (auction r) = AUCTION \<and> biddingOpen (auction r) \<and> \<not> timer (auction r) \<and>
        timerTick 3 r = Some r
    | Destroyed \<Rightarrow> False | Crashed \<Rightarrow> False)"
  by code_simp

end
